theory Spec2Isabelle
  imports Main
begin

section \<open>The archive as a byte stream\<close>

text \<open>
  \<^verbatim>\<open>lib_tar.c\<close> reads a USTAR archive through a file descriptor. The descriptor is
  modelled by the contents of the file, a list of bytes (\<open>char\<close> is HOL's 8-bit
  character, as C's \<open>unsigned char\<close>); the file position is the argument of each
  scanning loop. A C string is the list of its characters without the terminating NUL;
  the paths a caller passes are such strings, so they hold no NUL.
\<close>

type_synonym tar_header_t = string

abbreviation NUL :: char where
  "NUL \<equiv> CHR 0x00"

text \<open>
  Modelled from the spec: \<^verbatim>\<open>lib_tar.h\<close> (the layout of \<^verbatim>\<open>tar_header_t\<close>, the type
  flags, \<^verbatim>\<open>TMAGIC\<close>, \<^verbatim>\<open>TVERSION\<close> and the macro \<^verbatim>\<open>TAR_INT\<close>) is not among the
  sources. The field widths, the flag characters and the two literals are those of the
  format table of the specification; the offsets are those of the USTAR header, in
  which the fields follow each other without gaps: name 0, mode 100, uid 108, gid 116,
  size 124, mtime 136, chksum 148, typeflag 156, linkname 157, magic 257, version 263,
  uname 265, gname 297, devmajor 329, devminor 337, prefix 345, padding 500.
\<close>

definition sizeof_hdr :: nat where
  "sizeof_hdr = 512"

definition REGTYPE :: char where
  "REGTYPE = CHR ''0''"

definition AREGTYPE :: char where
  "AREGTYPE = NUL"

definition SYMTYPE :: char where
  "SYMTYPE = CHR ''2''"

definition DIRTYPE :: char where
  "DIRTYPE = CHR ''5''"

definition TMAGIC :: string where
  "TMAGIC = ''ustar'' @ [NUL]"

definition TMAGLEN :: nat where
  "TMAGLEN = 6"

definition TVERSION :: string where
  "TVERSION = ''00'' @ [NUL]"

definition TVERSLEN :: nat where
  "TVERSLEN = 2"

text \<open>
  A \<^verbatim>\<open>char *\<close> into the header is the list of the bytes from that offset to the end
  of the block; read as a C string it stops at the first NUL (and so runs into the next
  field when a field holds no NUL, as the C code does).
\<close>

definition c_string :: "string \<Rightarrow> string" where
  "c_string mem = takeWhile (\<lambda>c. c \<noteq> NUL) mem"

definition hdr_name :: "tar_header_t \<Rightarrow> string" where
  "hdr_name hdr = drop 0 hdr"

definition hdr_size :: "tar_header_t \<Rightarrow> string" where
  "hdr_size hdr = take 12 (drop 124 hdr)"

definition hdr_chksum :: "tar_header_t \<Rightarrow> string" where
  "hdr_chksum hdr = take 8 (drop 148 hdr)"

definition typeflag :: "tar_header_t \<Rightarrow> char" where
  "typeflag hdr = hdr ! 156"

definition hdr_linkname :: "tar_header_t \<Rightarrow> string" where
  "hdr_linkname hdr = drop 157 hdr"

definition hdr_magic :: "tar_header_t \<Rightarrow> string" where
  "hdr_magic hdr = drop 257 hdr"

definition hdr_version :: "tar_header_t \<Rightarrow> string" where
  "hdr_version hdr = drop 263 hdr"

definition hdr_prefix :: "tar_header_t \<Rightarrow> string" where
  "hdr_prefix hdr = drop 345 hdr"

text \<open>
  Modelled from the spec: \<^verbatim>\<open>TAR_INT\<close> decodes an octal ASCII numeric field. As
  \<^verbatim>\<open>strtol(p, NULL, 8)\<close> does, it skips leading white space and reads octal digits
  up to the first other character; it is applied to the bytes of the field, and signs
  are not read.
\<close>

definition isspace :: "char \<Rightarrow> bool" where
  "isspace c = (c = CHR '' '' \<or> (9 \<le> (of_char c :: nat) \<and> (of_char c :: nat) \<le> 13))"

definition is_octal :: "char \<Rightarrow> bool" where
  "is_octal c = (48 \<le> (of_char c :: nat) \<and> (of_char c :: nat) \<le> 55)"

fun octal_value :: "nat \<Rightarrow> string \<Rightarrow> nat" where
  "octal_value acc [] = acc"
| "octal_value acc (c # cs) =
     (if is_octal c then octal_value (acc * 8 + (of_char c - 48)) cs else acc)"

definition TAR_INT :: "string \<Rightarrow> nat" where
  "TAR_INT field = octal_value 0 (dropWhile isspace field)"

section \<open>The C library and the system calls\<close>

text \<open>
  \<^verbatim>\<open>strncmp(a, b, n) == 0\<close>: the strings agree on their first \<open>n\<close> characters, or up
  to the NUL that ends both.
\<close>

definition strncmp_eq :: "string \<Rightarrow> string \<Rightarrow> nat \<Rightarrow> bool" where
  "strncmp_eq a b n = (c_string (take n a) = c_string (take n b))"

text \<open>\<open>s[i]\<close> for a C string: the terminating NUL is at index \<open>strlen s\<close>.\<close>

definition char_at :: "string \<Rightarrow> nat \<Rightarrow> char" where
  "char_at s i = (if i < length s then s ! i else NUL)"

text \<open>\<^verbatim>\<open>strchr(s, c)\<close>: the rest of \<open>s\<close> from the first \<open>c\<close>, the empty list for a null pointer.\<close>

definition strchr :: "string \<Rightarrow> char \<Rightarrow> string" where
  "strchr s c = dropWhile (\<lambda>x. x \<noteq> c) s"

text \<open>
  \<^verbatim>\<open>lseek\<close> on a regular file fails when the resulting offset does not fit the signed
  64-bit \<^verbatim>\<open>off_t\<close>; otherwise it returns the new position, which may lie past the end
  of the file.
\<close>

definition lseek :: "nat \<Rightarrow> nat option" where
  "lseek off = (if off < 2 ^ 63 then Some off else None)"

text \<open>
  \<^verbatim>\<open>read(fd, buf, n)\<close> at position \<open>pos\<close>: the bytes that are there, at most \<open>n\<close>, and
  none past the end of the file.
\<close>

definition read_at :: "string \<Rightarrow> nat \<Rightarrow> nat \<Rightarrow> string" where
  "read_at bytes pos n = take n (drop pos bytes)"

section \<open>Headers\<close>

text \<open>\<^verbatim>\<open>is_empty_block\<close>, lines 9 to 17.\<close>

definition is_empty_block :: "tar_header_t \<Rightarrow> bool" where
  "is_empty_block hdr = list_all (\<lambda>b. b = NUL) hdr"

text \<open>
  \<^verbatim>\<open>header_path\<close>, lines 24 to 30. \<^verbatim>\<open>snprintf(out, 256, ...)\<close> keeps at most 255
  characters.
\<close>

definition header_path :: "tar_header_t \<Rightarrow> string" where
  "header_path hdr =
     (if char_at (hdr_prefix hdr) 0 \<noteq> NUL
      then take 255 (c_string (hdr_prefix hdr) @ ''/'' @ c_string (hdr_name hdr))
      else take 255 (c_string (hdr_name hdr)))"

text \<open>The size of the data of an entry in whole blocks, lines 80 and 81.\<close>

definition jump :: "tar_header_t \<Rightarrow> nat" where
  "jump hdr = ((TAR_INT (hdr_size hdr) + 511) div 512) * 512"

section \<open>\<^verbatim>\<open>find_header\<close>\<close>

text \<open>The comparison of one header with the path, lines 53 to 67.\<close>

definition header_matches :: "tar_header_t \<Rightarrow> string \<Rightarrow> bool" where
  "header_matches hdr path =
     (let name = header_path hdr in
      if typeflag hdr = DIRTYPE then
        (let len = length name in
         if name = path then True
         else if len > 0 \<and> char_at name (len - 1) = CHR ''/'' \<and>
                 strncmp_eq name path (len - 1) \<and> char_at path (len - 1) = NUL then True
         else False)
      else name = path)"

text \<open>
  The loop of lines 45 to 85 from position \<open>pos\<close>. The result is the header found and
  the offset of its data; \<open>None\<close> is the return value 0.
\<close>

function find_header_from :: "string \<Rightarrow> nat \<Rightarrow> string \<Rightarrow> (tar_header_t \<times> nat) option" where
  "find_header_from bytes pos path =
     (if length (read_at bytes pos sizeof_hdr) = sizeof_hdr then
        (let hdr = read_at bytes pos sizeof_hdr in
         if is_empty_block hdr then None
         else
           (let data_off = pos + sizeof_hdr in
            if header_matches hdr path then Some (hdr, data_off)
            else
              (case lseek (data_off + jump hdr) of
                 None \<Rightarrow> None
               | Some pos' \<Rightarrow> find_header_from bytes pos' path)))
      else None)"
  by pat_completeness auto
termination
  by (relation "measure (\<lambda>(bytes, pos, path). length bytes - pos)")
    (auto simp: read_at_def sizeof_hdr_def lseek_def split: if_splits)

declare find_header_from.simps [simp del]

definition find_header :: "string \<Rightarrow> string \<Rightarrow> (tar_header_t \<times> nat) option" where
  "find_header bytes path =
     (case lseek 0 of None \<Rightarrow> None | Some pos \<Rightarrow> find_header_from bytes pos path)"

section \<open>\<^verbatim>\<open>resolve_path\<close>\<close>

text \<open>
  Lines 99 to 105 and 113 to 118: \<^verbatim>\<open>strncpy\<close> of at most 255 characters into
  \<open>current\<close>, then one trailing slash is removed.
\<close>

definition copy_current :: "string \<Rightarrow> string" where
  "copy_current s =
     (let current = take 255 s; len = length current in
      if len > 0 \<and> char_at current (len - 1) = CHR ''/'' then take (len - 1) current
      else current)"

text \<open>
  The loop of lines 107 to 128 from the value \<open>depth\<close> of its counter. The result is the
  header, the offset of its data and the path written into \<open>resolved\<close>.
\<close>

function resolve_from :: "string \<Rightarrow> nat \<Rightarrow> string \<Rightarrow> (tar_header_t \<times> nat \<times> string) option" where
  "resolve_from bytes depth current =
     (if depth < 16 then
        (case find_header bytes current of
           None \<Rightarrow> None
         | Some (header, off) \<Rightarrow>
             if typeflag header = SYMTYPE
             then resolve_from bytes (depth + 1) (copy_current (c_string (hdr_linkname header)))
             else Some (header, off, header_path header))
      else None)"
  by pat_completeness auto
termination
  by (relation "measure (\<lambda>(bytes, depth, current). 16 - depth)") auto

declare resolve_from.simps [simp del]

definition resolve_path :: "string \<Rightarrow> string \<Rightarrow> (tar_header_t \<times> nat \<times> string) option" where
  "resolve_path bytes path = resolve_from bytes 0 (copy_current path)"

section \<open>\<^verbatim>\<open>check_archive\<close>\<close>

text \<open>
  Lines 171 to 178: the header is copied, its checksum field is overwritten with eight
  spaces, and the bytes are added up in an \<^verbatim>\<open>unsigned int\<close>.
\<close>

definition blank_chksum :: "tar_header_t \<Rightarrow> string" where
  "blank_chksum hdr = take 148 hdr @ replicate 8 (CHR '' '') @ drop 156 hdr"

definition byte_sum :: "string \<Rightarrow> nat" where
  "byte_sum tmp = fold (\<lambda>b sum. (sum + of_char b) mod 2 ^ 32) tmp 0"

text \<open>The three tests of lines 161, 165 and 180, each true when the header passes.\<close>

definition magic_ok :: "tar_header_t \<Rightarrow> bool" where
  "magic_ok hdr =
     (\<not> (\<not> strncmp_eq (hdr_magic hdr) TMAGIC TMAGLEN \<or>
         char_at (hdr_magic hdr) (TMAGLEN - 1) \<noteq> NUL))"

definition version_ok :: "tar_header_t \<Rightarrow> bool" where
  "version_ok hdr = strncmp_eq (hdr_version hdr) TVERSION TVERSLEN"

definition chksum_ok :: "tar_header_t \<Rightarrow> bool" where
  "chksum_ok hdr =
     (let expected = TAR_INT (hdr_chksum hdr) mod 2 ^ 32;
          sum = byte_sum (blank_chksum hdr)
      in sum = expected)"

text \<open>
  The loop of lines 156 to 191 from position \<open>pos\<close> with \<open>count\<close> headers counted so
  far. \<open>count\<close> is a C \<^verbatim>\<open>int\<close>; the model does not say what happens when it
  overflows, after \<open>2 ^ 31\<close> headers.
\<close>

function check_archive_from :: "string \<Rightarrow> nat \<Rightarrow> int \<Rightarrow> int" where
  "check_archive_from bytes pos count =
     (if length (read_at bytes pos sizeof_hdr) = sizeof_hdr then
        (let hdr = read_at bytes pos sizeof_hdr in
         if is_empty_block hdr then count
         else if \<not> magic_ok hdr then - 1
         else if \<not> version_ok hdr then - 2
         else if \<not> chksum_ok hdr then - 3
         else
           (case lseek (pos + sizeof_hdr + jump hdr) of
              None \<Rightarrow> - 3
            | Some pos' \<Rightarrow> check_archive_from bytes pos' (count + 1)))
      else count)"
  by pat_completeness auto
termination
  by (relation "measure (\<lambda>(bytes, pos, count). length bytes - pos)")
    (auto simp: read_at_def sizeof_hdr_def lseek_def split: if_splits)

declare check_archive_from.simps [simp del]

definition check_archive :: "string \<Rightarrow> int" where
  "check_archive bytes =
     (case lseek 0 of None \<Rightarrow> - 3 | Some pos \<Rightarrow> check_archive_from bytes pos 0)"

section \<open>The predicates\<close>

text \<open>A C comparison as the \<^verbatim>\<open>int\<close> it evaluates to.\<close>

definition c_bool :: "bool \<Rightarrow> int" where
  "c_bool b = (if b then 1 else 0)"

definition exists :: "string \<Rightarrow> string \<Rightarrow> int" where
  "exists bytes path = (case find_header bytes path of None \<Rightarrow> 0 | Some _ \<Rightarrow> 1)"

definition is_dir :: "string \<Rightarrow> string \<Rightarrow> int" where
  "is_dir bytes path =
     (case find_header bytes path of
        None \<Rightarrow> 0
      | Some (hdr, _) \<Rightarrow> c_bool (typeflag hdr = DIRTYPE))"

definition is_file :: "string \<Rightarrow> string \<Rightarrow> int" where
  "is_file bytes path =
     (case find_header bytes path of
        None \<Rightarrow> 0
      | Some (hdr, _) \<Rightarrow> c_bool (typeflag hdr = REGTYPE \<or> typeflag hdr = AREGTYPE))"

definition is_symlink :: "string \<Rightarrow> string \<Rightarrow> int" where
  "is_symlink bytes path =
     (case find_header bytes path of
        None \<Rightarrow> 0
      | Some (hdr, _) \<Rightarrow> c_bool (typeflag hdr = SYMTYPE))"

section \<open>\<^verbatim>\<open>list\<close>\<close>

text \<open>
  Lines 286 to 302: the prefix \<open>base\<close> that the scan filters with. The buffer has 256
  bytes; when the resolved path has 255 characters and no final slash, line 298 writes
  the terminating NUL at index 256, past the buffer, and C leaves the behaviour
  undefined: that is the outcome \<open>PastBuffer\<close>. A null \<open>path\<close> is treated by line 288
  as the empty one and is not modelled apart.
\<close>

datatype base_result = NoDirectory | Base string | PastBuffer

definition list_base :: "string \<Rightarrow> string \<Rightarrow> base_result" where
  "list_base bytes path =
     (if char_at path 0 \<noteq> NUL then
        (case resolve_path bytes path of
           None \<Rightarrow> NoDirectory
         | Some (hdr, off, base) \<Rightarrow>
             if typeflag hdr \<noteq> DIRTYPE then NoDirectory
             else
               (let len = length base in
                if len > 0 \<and> char_at base (len - 1) \<noteq> CHR ''/''
                then (if len + 1 < 256 then Base (base @ ''/'') else PastBuffer)
                else Base base))
      else Base [])"

text \<open>The test of lines 322 to 325 on the path \<open>name\<close> of one header.\<close>

definition is_listed :: "string \<Rightarrow> string \<Rightarrow> bool" where
  "is_listed base name =
     (if strncmp_eq name base (length base) \<and> name \<noteq> base then
        (let rest = drop (length base) name; slash = strchr rest (CHR ''/'')
         in slash = [] \<or> char_at slash 1 = NUL)
      else False)"

text \<open>
  The loop of lines 311 to 337. \<open>entries\<close> is the caller's array, which has at least
  \<open>capacity\<close> elements, each long enough for a path; \<open>count\<close> is the number of elements
  written so far.
\<close>

function list_from ::
  "string \<Rightarrow> nat \<Rightarrow> string \<Rightarrow> nat \<Rightarrow> string list \<Rightarrow> nat \<Rightarrow> string list \<times> nat" where
  "list_from bytes pos base capacity entries count =
     (if length (read_at bytes pos sizeof_hdr) = sizeof_hdr then
        (let hdr = read_at bytes pos sizeof_hdr in
         if is_empty_block hdr then (entries, count)
         else
           (let name = header_path hdr;
                data_off = pos + sizeof_hdr;
                (entries', count') =
                  (if is_listed base name \<and> count < capacity
                   then (entries[count := name], count + 1)
                   else (entries, count))
            in case lseek (data_off + jump hdr) of
                 None \<Rightarrow> (entries', count')
               | Some pos' \<Rightarrow> list_from bytes pos' base capacity entries' count'))
      else (entries, count))"
  by pat_completeness auto
termination
  by (relation "measure (\<lambda>(bytes, pos, base, capacity, entries, count). length bytes - pos)")
    (auto simp: read_at_def sizeof_hdr_def lseek_def split: if_splits)

declare list_from.simps [simp del]

text \<open>
  The result is the return value, the array and \<open>*no_entries\<close>, which line 284 sets to
  0 before anything else; \<open>None\<close> is the undefined behaviour of \<open>PastBuffer\<close>.
\<close>

definition list :: "string \<Rightarrow> string \<Rightarrow> string list \<Rightarrow> nat \<Rightarrow> (int \<times> string list \<times> nat) option" where
  "list bytes path entries no_entries =
     (let capacity = no_entries in
      case list_base bytes path of
        NoDirectory \<Rightarrow> Some (0, entries, 0)
      | PastBuffer \<Rightarrow> None
      | Base base \<Rightarrow>
          (case lseek 0 of
             None \<Rightarrow> Some (0, entries, 0)
           | Some pos \<Rightarrow>
               (let (entries', count) = list_from bytes pos base capacity entries 0
                in Some (1, entries', count))))"

section \<open>\<^verbatim>\<open>read_file\<close>\<close>

text \<open>
  The result is the return value, the buffer \<open>dest\<close> and \<open>*len\<close>. The bytes read
  replace the first bytes of \<open>dest\<close>, which has at least \<open>len\<close> bytes. \<^verbatim>\<open>read\<close> on a
  regular file returns the bytes that the file has at the position, so the branch of a
  negative \<open>r\<close> (line 387) is not in the model.
\<close>

definition read_file :: "string \<Rightarrow> string \<Rightarrow> nat \<Rightarrow> string \<Rightarrow> nat \<Rightarrow> int \<times> string \<times> nat" where
  "read_file bytes path offset dest len =
     (case resolve_path bytes path of
        None \<Rightarrow> (- 1, dest, len)
      | Some (hdr, data_off, resolved) \<Rightarrow>
          if \<not> (typeflag hdr = REGTYPE \<or> typeflag hdr = AREGTYPE) then (- 1, dest, len)
          else
            (let size = TAR_INT (hdr_size hdr) in
             if offset > size then (- 2, dest, len)
             else
               (let to_read = (if size - offset > len then len else size - offset) in
                case lseek (data_off + offset) of
                  None \<Rightarrow> (- 1, dest, len)
                | Some pos \<Rightarrow>
                    (let got = read_at bytes pos to_read; r = length got
                     in (if offset + r < size then int (size - offset - r) else 0,
                         got @ drop r dest, r)))))"

section \<open>The layout of an archive\<close>

text \<open>
  A USTAR archive is a sequence of entries, each a header block followed by its data
  in whole blocks, and after them whatever ends the archive. \<open>tar_image\<close> is the byte
  stream of such a sequence; \<open>entry_ok\<close> says that the header is a block of 512 bytes
  other than the end marker and that the data fill the blocks that the size field
  announces; \<open>end_of_archive\<close> says that what follows is too short for a header or
  starts with the all-zero block.
\<close>

definition tar_image :: "(tar_header_t \<times> string) list \<Rightarrow> string \<Rightarrow> string" where
  "tar_image es rest = concat (map (\<lambda>(hdr, data). hdr @ data) es) @ rest"

fun entry_ok :: "tar_header_t \<times> string \<Rightarrow> bool" where
  "entry_ok (hdr, data) =
     (length hdr = sizeof_hdr \<and> \<not> is_empty_block hdr \<and> length data = jump hdr)"

definition end_of_archive :: "string \<Rightarrow> bool" where
  "end_of_archive rest = (length rest < sizeof_hdr \<or> is_empty_block (take sizeof_hdr rest))"

text \<open>The paths of the entries, in the order of the stream.\<close>

definition entry_paths :: "(tar_header_t \<times> string) list \<Rightarrow> string list" where
  "entry_paths es = map (\<lambda>(hdr, data). header_path hdr) es"

text \<open>
  What a scan for \<open>path\<close> finds in a sequence of entries whose first header is at
  \<open>pos\<close>: the first header that matches, with the offset of its data.
\<close>

fun locate :: "nat \<Rightarrow> (tar_header_t \<times> string) list \<Rightarrow> string \<Rightarrow> (tar_header_t \<times> nat) option" where
  "locate pos [] path = None"
| "locate pos ((hdr, data) # es) path =
     (if header_matches hdr path then Some (hdr, pos + sizeof_hdr)
      else locate (pos + sizeof_hdr + length data) es path)"

text \<open>
  What the loop of \<open>list\<close> leaves in the array when it meets the paths \<open>names\<close> one
  after the other: each goes to the next free element as long as one is left below
  \<open>capacity\<close>.
\<close>

fun store :: "nat \<Rightarrow> string list \<Rightarrow> nat \<Rightarrow> string list \<Rightarrow> string list \<times> nat" where
  "store capacity entries count [] = (entries, count)"
| "store capacity entries count (name # names) =
     (if count < capacity then store capacity (entries[count := name]) (count + 1) names
      else store capacity entries count names)"

section \<open>The notions of the specification\<close>

text \<open>
  A chain of \<open>n\<close> symbolic links from \<open>current\<close>: the path names a link, whose target
  names a link, and so on \<open>n\<close> times, and the last target names an entry that is not a
  link. \<open>chain_target\<close> is that entry and the offset of its data.
\<close>

fun chain_target :: "string \<Rightarrow> nat \<Rightarrow> string \<Rightarrow> (tar_header_t \<times> nat) option" where
  "chain_target bytes 0 current =
     (case find_header bytes current of
        None \<Rightarrow> None
      | Some (hdr, off) \<Rightarrow> if typeflag hdr = SYMTYPE then None else Some (hdr, off))"
| "chain_target bytes (Suc n) current =
     (case find_header bytes current of
        None \<Rightarrow> None
      | Some (hdr, off) \<Rightarrow>
          if typeflag hdr = SYMTYPE
          then chain_target bytes n (copy_current (c_string (hdr_linkname hdr)))
          else None)"



text \<open>
  A well-formed header: the magic field is \<open>ustar\<close> and a NUL, the version field is
  the two bytes \<open>00\<close>, and the checksum field holds the sum of the bytes of the block
  with that field taken as eight spaces.
\<close>

definition well_formed_header :: "tar_header_t \<Rightarrow> bool" where
  "well_formed_header hdr =
     (take 6 (drop 257 hdr) = ''ustar'' @ [NUL] \<and>
      take 2 (drop 263 hdr) = ''00'' \<and>
      TAR_INT (hdr_chksum hdr) =
        sum_list (map of_char (take 148 hdr @ replicate 8 (CHR '' '') @ drop 156 hdr)))"

text \<open>The three tests of \<open>check_archive\<close> together.\<close>

definition header_valid :: "tar_header_t \<Rightarrow> bool" where
  "header_valid hdr = (magic_ok hdr \<and> version_ok hdr \<and> chksum_ok hdr)"

text \<open>
  A direct child of the directory with prefix \<open>base\<close>: the path starts with the prefix,
  is not the prefix, and what follows the prefix has no slash except possibly a last
  one.
\<close>

definition direct_child :: "string \<Rightarrow> string \<Rightarrow> bool" where
  "direct_child base name =
     (take (length base) name = base \<and> name \<noteq> base \<and>
      CHR ''/'' \<notin> set (butlast (drop (length base) name)))"

section \<open>Test archives\<close>

text \<open>
  \<open>ustar_header\<close> lays out a header block: the name, the size field (octal digits),
  the type flag and the link name in their fields, the magic and the version, zeros
  elsewhere, and the checksum as six octal digits, a NUL and a space.
\<close>

definition pad :: "nat \<Rightarrow> string \<Rightarrow> string" where
  "pad n s = take n s @ replicate (n - length s) NUL"

definition raw_header :: "string \<Rightarrow> string \<Rightarrow> string \<Rightarrow> char \<Rightarrow> string \<Rightarrow> tar_header_t" where
  "raw_header name sz chksum tf linkname =
     pad 100 name @ replicate 24 NUL @ pad 12 sz @ replicate 12 NUL @ pad 8 chksum @ [tf] @
     pad 100 linkname @ ''ustar'' @ [NUL] @ ''00'' @ replicate 247 NUL"

fun octal_digits :: "nat \<Rightarrow> nat \<Rightarrow> string" where
  "octal_digits 0 n = []"
| "octal_digits (Suc k) n = octal_digits k (n div 8) @ [char_of (48 + n mod 8)]"

definition ustar_header :: "string \<Rightarrow> string \<Rightarrow> char \<Rightarrow> string \<Rightarrow> tar_header_t" where
  "ustar_header name sz tf linkname =
     raw_header name sz
       (octal_digits 6 (byte_sum (blank_chksum (raw_header name sz [] tf linkname))) @
        [NUL, CHR '' ''])
       tf linkname"

definition file_entry :: "string \<Rightarrow> string \<Rightarrow> string \<Rightarrow> tar_header_t \<times> string" where
  "file_entry name sz content =
     (ustar_header name sz REGTYPE [],
      content @ replicate ((512 - length content mod 512) mod 512) NUL)"

definition dir_entry :: "string \<Rightarrow> tar_header_t \<times> string" where
  "dir_entry name = (ustar_header name ''00000000000'' DIRTYPE [], [])"

definition link_entry :: "string \<Rightarrow> string \<Rightarrow> tar_header_t \<times> string" where
  "link_entry name target = (ustar_header name ''00000000000'' SYMTYPE target, [])"

text \<open>The end of an archive: two all-zero blocks.\<close>

definition end_marker :: string where
  "end_marker = replicate 1024 NUL"

text \<open>Sixteen links \<open>l01\<close> to \<open>l16\<close>, each to the next, the last to the file \<open>file\<close>.\<close>

definition chain16 :: "(tar_header_t \<times> string) list" where
  "chain16 =
     [link_entry ''l01'' ''l02'', link_entry ''l02'' ''l03'', link_entry ''l03'' ''l04'',
      link_entry ''l04'' ''l05'', link_entry ''l05'' ''l06'', link_entry ''l06'' ''l07'',
      link_entry ''l07'' ''l08'', link_entry ''l08'' ''l09'', link_entry ''l09'' ''l10'',
      link_entry ''l10'' ''l11'', link_entry ''l11'' ''l12'', link_entry ''l12'' ''l13'',
      link_entry ''l13'' ''l14'', link_entry ''l14'' ''l15'', link_entry ''l15'' ''l16'',
      link_entry ''l16'' ''file'', file_entry ''file'' ''00000000005'' ''hello'',
      link_entry ''self'' ''self'']"

text \<open>
  A directory with the files \<open>a\<close> and \<open>b\<close> and the directories \<open>c\<close>, which holds \<open>d\<close>,
  and \<open>e\<close>; a link to the directory, a link to the file \<open>a\<close>, and a file of ten bytes.
\<close>

definition tree :: "(tar_header_t \<times> string) list" where
  "tree =
     [dir_entry ''dir/'', file_entry ''dir/a'' ''00000000003'' ''aaa'',
      file_entry ''dir/b'' ''00000000000'' [], dir_entry ''dir/c/'',
      file_entry ''dir/c/d'' ''00000000001'' ''d'', dir_entry ''dir/e/'',
      link_entry ''to_dir'' ''dir/'', link_entry ''to_a'' ''dir/a'',
      file_entry ''ten'' ''00000000012'' ''0123456789'']"


text \<open>A directory entry with an empty name before a file.\<close>

definition nameless :: "(tar_header_t \<times> string) list" where
  "nameless = [dir_entry [], file_entry ''a'' ''00000000000'' []]"

text \<open>
  Three headers with the checksum field \<open>7777777\<close>, which no block of 512 bytes sums
  to: one that is right otherwise, one that also has the version \<open>99\<close>, and one that
  also has the version \<open>99\<close> and the magic \<open>USTAR\<close>.
\<close>

definition bad_chksum_header :: tar_header_t where
  "bad_chksum_header = raw_header ''x'' ''00000000000'' ''7777777'' REGTYPE []"

definition bad_version_header :: tar_header_t where
  "bad_version_header = take 263 bad_chksum_header @ ''99'' @ drop 265 bad_chksum_header"

definition bad_magic_header :: tar_header_t where
  "bad_magic_header =
     take 257 bad_chksum_header @ ''USTAR'' @ [NUL] @ ''99'' @ drop 265 bad_chksum_header"


section \<open>Scanning an archive image\<close>

lemma lseek_Some: "off < 2 ^ 63 \<Longrightarrow> lseek off = Some off"
  by (simp add: lseek_def)

lemma tar_image_Nil: "tar_image [] rest = rest"
  by (simp add: tar_image_def)

lemma tar_image_Cons: "tar_image ((hdr, data) # es) rest = hdr @ data @ tar_image es rest"
  by (simp add: tar_image_def)

lemma read_at_end:
  "end_of_archive rest \<Longrightarrow> length (read_at (pre @ rest) (length pre) sizeof_hdr) = sizeof_hdr
     \<Longrightarrow> is_empty_block (read_at (pre @ rest) (length pre) sizeof_hdr)"
  by (auto simp: end_of_archive_def read_at_def)

lemma read_at_header:
  "length hdr = sizeof_hdr \<Longrightarrow> read_at (pre @ hdr @ more) (length pre) sizeof_hdr = hdr"
  by (simp add: read_at_def)

lemma find_header_from_step:
  "read_at bytes pos sizeof_hdr = hdr \<Longrightarrow> length hdr = sizeof_hdr \<Longrightarrow> \<not> is_empty_block hdr \<Longrightarrow>
   find_header_from bytes pos path =
     (if header_matches hdr path then Some (hdr, pos + sizeof_hdr)
      else case lseek (pos + sizeof_hdr + jump hdr) of
             None \<Rightarrow> None
           | Some pos' \<Rightarrow> find_header_from bytes pos' path)"
  by (subst find_header_from.simps) (simp add: Let_def)

lemma find_header_from_stop:
  "(length (read_at bytes pos sizeof_hdr) = sizeof_hdr \<Longrightarrow> is_empty_block (read_at bytes pos sizeof_hdr))
   \<Longrightarrow> find_header_from bytes pos path = None"
  by (subst find_header_from.simps) (auto simp: Let_def)

lemma find_header_from_image:
  "list_all entry_ok es \<Longrightarrow> end_of_archive rest \<Longrightarrow>
   length pre + length (tar_image es rest) < 2 ^ 63 \<Longrightarrow>
   find_header_from (pre @ tar_image es rest) (length pre) path = locate (length pre) es path"
proof (induction es arbitrary: pre)
  case Nil
  show ?case
    using read_at_end [OF Nil(2), of pre]
    by (simp add: tar_image_Nil find_header_from_stop)
next
  case (Cons e es)
  obtain hdr data where e: "e = (hdr, data)" by (cases e)
  from Cons.prems(1) have ok: "length hdr = sizeof_hdr" "\<not> is_empty_block hdr" "length data = jump hdr"
    and rest_ok: "list_all entry_ok es"
    by (simp_all add: e)
  let ?bytes = "pre @ tar_image (e # es) rest"
  let ?pre = "pre @ hdr @ data"
  have bytes: "?bytes = ?pre @ tar_image es rest"
    by (simp add: e tar_image_Cons)
  have rd: "read_at ?bytes (length pre) sizeof_hdr = hdr"
    by (simp add: e tar_image_Cons read_at_header ok)
  have len: "length ?pre + length (tar_image es rest) < 2 ^ 63"
    using Cons.prems(3) by (simp add: e tar_image_Cons)
  have pos: "length pre + sizeof_hdr + jump hdr = length ?pre"
    by (simp add: ok)
  have sk: "lseek (length ?pre) = Some (length ?pre)"
    using len by (simp add: lseek_def)
  have ih: "find_header_from ?bytes (length ?pre) path
      = locate (length ?pre) es path"
    unfolding bytes by (rule Cons.IH [OF rest_ok Cons.prems(2) len])
  have "find_header_from ?bytes (length pre) path =
     (if header_matches hdr path then Some (hdr, length pre + sizeof_hdr)
      else locate (length ?pre) es path)"
    by (simp only: find_header_from_step [OF rd ok(1,2)] pos sk ih option.case)
  also have "\<dots> = locate (length pre) (e # es) path"
    by (simp add: e ok add.assoc)
  finally show ?case .
qed

section \<open>The fields of a test header\<close>

lemma length_pad [simp]: "length (pad n s) = n"
  by (simp add: pad_def)

lemma length_raw_header [simp]: "length (raw_header name sz chksum tf linkname) = 512"
  by (simp add: raw_header_def)

lemma length_ustar_header [simp]: "length (ustar_header name sz tf linkname) = 512"
  by (simp add: ustar_header_def)

lemma c_string_NUL: "NUL \<notin> set s \<Longrightarrow> c_string (s @ NUL # t) = s"
  by (induction s) (auto simp: c_string_def)

lemma pad_short: "length s < n \<Longrightarrow> \<exists>k. pad n s = s @ NUL # replicate k NUL"
  by (rule exI [of _ "n - length s - 1"]) (simp add: pad_def flip: replicate_Suc)

lemma typeflag_raw [simp]: "typeflag (raw_header name sz chksum tf linkname) = tf"
  by (simp add: typeflag_def raw_header_def nth_append)

lemma name_raw:
  assumes "length name < 100" "NUL \<notin> set name"
  shows "c_string (hdr_name (raw_header name sz chksum tf linkname)) = name"
proof -
  obtain k where "pad 100 name = name @ NUL # replicate k NUL"
    using pad_short [OF assms(1)] by blast
  then show ?thesis
    by (simp add: hdr_name_def raw_header_def c_string_NUL [OF assms(2)])
qed

lemma linkname_raw:
  assumes "length linkname < 100" "NUL \<notin> set linkname"
  shows "c_string (hdr_linkname (raw_header name sz chksum tf linkname)) = linkname"
proof -
  obtain k where "pad 100 linkname = linkname @ NUL # replicate k NUL"
    using pad_short [OF assms(1)] by blast
  then show ?thesis
    by (simp add: hdr_linkname_def raw_header_def c_string_NUL [OF assms(2)])
qed

lemma prefix_raw: "char_at (hdr_prefix (raw_header name sz chksum tf linkname)) 0 = NUL"
  by (simp add: hdr_prefix_def raw_header_def char_at_def)

lemma header_path_raw:
  "length name < 100 \<Longrightarrow> NUL \<notin> set name \<Longrightarrow>
   header_path (raw_header name sz chksum tf linkname) = name"
  by (simp add: header_path_def prefix_raw name_raw)

lemma size_raw: "hdr_size (raw_header name sz chksum tf linkname) = pad 12 sz"
  by (simp add: hdr_size_def raw_header_def)

lemma chksum_raw: "hdr_chksum (raw_header name sz chksum tf linkname) = pad 8 chksum"
  by (simp add: hdr_chksum_def raw_header_def)

lemma magic_raw: "magic_ok (raw_header name sz chksum tf linkname)"
  by (simp add: magic_ok_def hdr_magic_def raw_header_def strncmp_eq_def TMAGIC_def TMAGLEN_def
      c_string_def char_at_def nth_append)

lemma version_raw: "version_ok (raw_header name sz chksum tf linkname)"
  by (simp add: version_ok_def hdr_version_def raw_header_def strncmp_eq_def TVERSION_def
      TVERSLEN_def c_string_def)

lemma not_empty_raw: "\<not> is_empty_block (raw_header name sz chksum tf linkname)"
  by (simp add: is_empty_block_def raw_header_def)

lemma blank_raw:
  "blank_chksum (raw_header name sz chksum tf linkname) =
   blank_chksum (raw_header name sz [] tf linkname)"
  by (simp add: blank_chksum_def raw_header_def)

lemma fold_le_step:
  "(a::nat) < 256 \<Longrightarrow> m \<le> acc + a \<Longrightarrow> f \<le> m + 255 * l \<Longrightarrow> f \<le> acc + 255 * Suc l"
  by simp

lemma byte_sum_fold_le:
  "fold (\<lambda>b sum. (sum + of_char b) mod 2 ^ 32) xs acc \<le> acc + 255 * length xs"
proof (induction xs arbitrary: acc)
  case Nil
  show ?case by simp
next
  case (Cons x xs)
  let ?acc = "(acc + of_char x) mod 2 ^ 32"
  have "(of_char x :: nat) < 256"
    by (rule nat_of_char_less_256)
  moreover have "?acc \<le> acc + (of_char x :: nat)"
    by (rule mod_less_eq_dividend)
  moreover have "fold (\<lambda>b sum. (sum + of_char b) mod 2 ^ 32) xs ?acc \<le> ?acc + 255 * length xs"
    by (rule Cons.IH)
  ultimately have "fold (\<lambda>b sum. (sum + of_char b) mod 2 ^ 32) xs ?acc \<le> acc + 255 * Suc (length xs)"
    by (rule fold_le_step)
  then show ?case
    by simp
qed

lemma byte_sum_le: "byte_sum xs \<le> 255 * length xs"
  using byte_sum_fold_le [of xs 0] by (simp add: byte_sum_def)

lemma octal_digit_char:
  "is_octal (char_of (48 + n mod 8)) \<and> (of_char (char_of (48 + n mod 8)) :: nat) - 48 = n mod 8"
proof -
  have "n mod 8 < 8" by simp
  then have "(48 + n mod 8) mod 256 = 48 + n mod 8"
    by (intro mod_less) linarith
  then show ?thesis
    by (simp add: is_octal_def)
qed

lemma octal_value_digits:
  "octal_value acc (octal_digits k n @ rest) = octal_value (acc * 8 ^ k + n mod 8 ^ k) rest"
proof (induction k arbitrary: n rest)
  case 0
  show ?case by simp
next
  case (Suc k)
  let ?c = "char_of (48 + n mod 8) :: char"
  have ar: "(acc * 8 ^ k + n div 8 mod 8 ^ k) * 8 + n mod 8 = acc * 8 ^ Suc k + n mod 8 ^ Suc k"
    by (simp add: algebra_simps mod_mult2_eq)
  have "octal_value acc (octal_digits (Suc k) n @ rest) =
      octal_value acc (octal_digits k (n div 8) @ ?c # rest)"
    by simp
  also have "\<dots> = octal_value (acc * 8 ^ k + n div 8 mod 8 ^ k) (?c # rest)"
    by (rule Suc.IH)
  also have "\<dots> = octal_value ((acc * 8 ^ k + n div 8 mod 8 ^ k) * 8 + n mod 8) rest"
    using octal_digit_char [of n] by (simp del: of_char_of)
  finally show ?case
    by (simp only: ar)
qed

lemma length_octal_digits [simp]: "length (octal_digits k n) = k"
  by (induction k arbitrary: n) auto

lemma octal_digits_octal: "c \<in> set (octal_digits k n) \<Longrightarrow> is_octal c"
  by (induction k arbitrary: n) (auto simp: octal_digit_char)

lemma not_octal_NUL: "\<not> is_octal NUL"
  by (simp add: is_octal_def)

lemma octal_not_space: "is_octal c \<Longrightarrow> \<not> isspace c"
  by (auto simp: is_octal_def isspace_def)

lemma TAR_INT_octal_digits:
  assumes "n < 8 ^ Suc k"
  shows "TAR_INT (octal_digits (Suc k) n @ NUL # rest) = n"
proof -
  have val: "octal_value 0 (octal_digits (Suc k) n @ NUL # rest) = n"
    using assms by (simp only: octal_value_digits) (simp add: not_octal_NUL)
  obtain c cs where ds: "octal_digits (Suc k) n = c # cs"
    by (cases "octal_digits (Suc k) n") auto
  then have "c \<in> set (octal_digits (Suc k) n)"
    by simp
  then have "\<not> isspace c"
    by (intro octal_not_space octal_digits_octal)
  then have "dropWhile isspace (octal_digits (Suc k) n @ NUL # rest) =
      octal_digits (Suc k) n @ NUL # rest"
    by (simp only: ds append_Cons dropWhile.simps if_False)
  with val show ?thesis
    by (simp only: TAR_INT_def)
qed

lemma chksum_ustar: "chksum_ok (ustar_header name sz tf linkname)"
proof -
  let ?raw = "raw_header name sz [] tf linkname"
  define s where "s = byte_sum (blank_chksum ?raw)"
  have "length (blank_chksum ?raw) = 512"
    by (simp add: blank_chksum_def)
  then have le: "s \<le> 255 * 512"
    unfolding s_def using byte_sum_le [of "blank_chksum ?raw"] by simp
  then have small: "s < 8 ^ Suc 5"
    by simp
  have hdr: "ustar_header name sz tf linkname =
      raw_header name sz (octal_digits 6 s @ [NUL, CHR '' '']) tf linkname"
    by (simp only: ustar_header_def s_def)
  have "pad 8 (octal_digits 6 s @ [NUL, CHR '' '']) = octal_digits (Suc 5) s @ NUL # [CHR '' '']"
    by (simp add: pad_def)
  then have expected: "TAR_INT (hdr_chksum (ustar_header name sz tf linkname)) = s"
    using TAR_INT_octal_digits [OF small] by (simp only: hdr chksum_raw)
  have sum: "byte_sum (blank_chksum (ustar_header name sz tf linkname)) = s"
    by (subst hdr, subst blank_raw) (simp only: s_def)
  have "s mod 2 ^ 32 = s"
    using le by simp
  then show ?thesis
    by (simp only: chksum_ok_def Let_def expected sum)
qed

lemma round_up: "n + (512 - n mod 512) mod 512 = ((n + 511) div 512) * (512::nat)"
proof -
  obtain q r where n: "n = q * 512 + r" and r: "r < 512"
    by (metis div_mult_mod_eq mod_less_divisor zero_less_numeral)
  show ?thesis
  proof (cases "r = 0")
    case True
    then show ?thesis by (simp add: n)
  next
    case False
    with r have "(r + 511) div 512 = 1"
      by arith
    then have "(q * 512 + r + 511) div 512 = q + 1"
      using div_mult_self3 [of 512 q "r + 511"] by (simp add: add.assoc)
    with r False show ?thesis by (simp add: n)
  qed
qed

lemma header_path_ustar:
  "length name < 100 \<Longrightarrow> NUL \<notin> set name \<Longrightarrow> header_path (ustar_header name sz tf linkname) = name"
  by (simp add: ustar_header_def header_path_raw)

lemma typeflag_ustar: "typeflag (ustar_header name sz tf linkname) = tf"
  by (simp add: ustar_header_def)

lemma linkname_ustar:
  "length linkname < 100 \<Longrightarrow> NUL \<notin> set linkname \<Longrightarrow>
   c_string (hdr_linkname (ustar_header name sz tf linkname)) = linkname"
  by (simp add: ustar_header_def linkname_raw)

lemma size_ustar: "hdr_size (ustar_header name sz tf linkname) = pad 12 sz"
  by (simp add: ustar_header_def size_raw)

lemma not_empty_ustar: "\<not> is_empty_block (ustar_header name sz tf linkname)"
  by (simp add: ustar_header_def not_empty_raw)

lemma header_valid_ustar: "header_valid (ustar_header name sz tf linkname)"
  by (simp add: header_valid_def chksum_ustar) (simp add: ustar_header_def magic_raw version_raw)

lemma jump_ustar:
  "jump (ustar_header name sz tf linkname) = ((TAR_INT (pad 12 sz) + 511) div 512) * 512"
  by (simp add: jump_def size_ustar)

lemma entry_ok_file:
  "TAR_INT (pad 12 sz) = length content \<Longrightarrow> entry_ok (file_entry name sz content)"
  by (simp add: file_entry_def sizeof_hdr_def not_empty_ustar jump_ustar round_up)

lemma TAR_INT_zero: "TAR_INT (pad 12 ''00000000000'') = 0"
  by (simp add: TAR_INT_def pad_def isspace_def is_octal_def)

lemma entry_ok_dir: "entry_ok (dir_entry name)"
  by (simp add: dir_entry_def sizeof_hdr_def not_empty_ustar jump_ustar TAR_INT_zero)

lemma entry_ok_link: "entry_ok (link_entry name target)"
  by (simp add: link_entry_def sizeof_hdr_def not_empty_ustar jump_ustar TAR_INT_zero)

lemma end_marker_end: "end_of_archive end_marker"
  by (simp add: end_of_archive_def end_marker_def sizeof_hdr_def is_empty_block_def list_all_iff)

lemma find_header_image:
  assumes "list_all entry_ok es" "end_of_archive rest" "length (tar_image es rest) < 2 ^ 63"
  shows "find_header (tar_image es rest) path = locate 0 es path"
  using find_header_from_image [of es rest "[]" path] assms
  by (simp add: find_header_def lseek_def)

lemma TAR_INT_small:
  "TAR_INT (pad 12 ''00000000001'') = 1"
  "TAR_INT (pad 12 ''00000000003'') = 3"
  "TAR_INT (pad 12 ''00000000005'') = 5"
  "TAR_INT (pad 12 ''00000000012'') = 10"
  by (simp_all add: TAR_INT_def pad_def isspace_def is_octal_def)

lemma tree_ok: "list_all entry_ok tree"
  by (simp add: tree_def entry_ok_dir entry_ok_link entry_ok_file TAR_INT_small TAR_INT_zero)

lemma tree_length: "length (tar_image tree end_marker) = 7168"
  by (simp add: tar_image_def tree_def end_marker_def file_entry_def dir_entry_def link_entry_def)

section \<open>Matching a header\<close>

lemma c_string_id: "NUL \<notin> set s \<Longrightarrow> c_string s = s"
  by (induction s) (auto simp: c_string_def)

lemma c_string_no_NUL: "NUL \<notin> set (c_string s)"
  unfolding c_string_def by (metis (mono_tags, lifting) set_takeWhileD)

lemma header_path_no_NUL: "NUL \<notin> set (header_path hdr)"
proof -
  have "NUL \<notin> set (c_string (hdr_prefix hdr) @ ''/'' @ c_string (hdr_name hdr))"
    using c_string_no_NUL by simp
  then have "NUL \<notin> set (take 255 (c_string (hdr_prefix hdr) @ ''/'' @ c_string (hdr_name hdr)))"
    by (meson in_set_takeD)
  moreover have "NUL \<notin> set (take 255 (c_string (hdr_name hdr)))"
    using c_string_no_NUL by (meson in_set_takeD)
  ultimately show ?thesis
    by (simp add: header_path_def)
qed

lemma strncmp_eq_plain:
  "NUL \<notin> set a \<Longrightarrow> NUL \<notin> set b \<Longrightarrow> strncmp_eq a b n = (take n a = take n b)"
proof -
  assume "NUL \<notin> set a" "NUL \<notin> set b"
  then have "NUL \<notin> set (take n a)" "NUL \<notin> set (take n b)"
    by (meson in_set_takeD)+
  then show ?thesis
    by (simp add: strncmp_eq_def c_string_id)
qed

lemma header_matches_dir:
  assumes "typeflag hdr = DIRTYPE" "NUL \<notin> set path"
  shows "header_matches hdr path =
    (header_path hdr = path \<or>
     (header_path hdr \<noteq> [] \<and> last (header_path hdr) = CHR ''/'' \<and> path = butlast (header_path hdr)))"
proof -
  define name where "name = header_path hdr"
  have nn: "NUL \<notin> set name"
    by (simp add: name_def header_path_no_NUL)
  have end_iff: "char_at path k = NUL \<longleftrightarrow> length path \<le> k" for k
    using assms(2) by (auto simp: char_at_def in_set_conv_nth)
  have "name \<noteq> [] \<and> char_at name (length name - 1) = CHR ''/'' \<and>
      take (length name - 1) name = take (length name - 1) path \<and> length path \<le> length name - 1
    \<longleftrightarrow> name \<noteq> [] \<and> last name = CHR ''/'' \<and> path = butlast name"
  proof (cases "name = []")
    case True
    then show ?thesis by simp
  next
    case False
    then have l: "char_at name (length name - 1) = last name"
      by (simp add: char_at_def last_conv_nth)
    show ?thesis
    proof
      assume a: "name \<noteq> [] \<and> char_at name (length name - 1) = CHR ''/'' \<and>
        take (length name - 1) name = take (length name - 1) path \<and> length path \<le> length name - 1"
      then have "take (length name - 1) path = path"
        by simp
      with a have "path = butlast name"
        by (simp add: butlast_conv_take)
      with a l show "name \<noteq> [] \<and> last name = CHR ''/'' \<and> path = butlast name"
        by metis
    next
      assume b: "name \<noteq> [] \<and> last name = CHR ''/'' \<and> path = butlast name"
      then have "take (length name - 1) name = take (length name - 1) path \<and>
          length path \<le> length name - 1"
        by (simp add: butlast_conv_take)
      with b l show "name \<noteq> [] \<and> char_at name (length name - 1) = CHR ''/'' \<and>
        take (length name - 1) name = take (length name - 1) path \<and> length path \<le> length name - 1"
        by metis
    qed
  qed
  then show ?thesis
    using assms(1)
    by (auto simp add: header_matches_def Let_def strncmp_eq_plain [OF nn assms(2)] end_iff
        simp flip: name_def)
qed

lemma header_matches_other:
  "typeflag hdr \<noteq> DIRTYPE \<Longrightarrow> header_matches hdr path = (header_path hdr = path)"
  by (simp add: header_matches_def Let_def)


lemma header_matches_ustar_dir:
  "length name < 100 \<Longrightarrow> NUL \<notin> set name \<Longrightarrow> NUL \<notin> set path \<Longrightarrow>
   header_matches (ustar_header name sz DIRTYPE linkname) path =
     (name = path \<or> (name \<noteq> [] \<and> last name = CHR ''/'' \<and> path = butlast name))"
  by (simp add: header_matches_dir typeflag_ustar header_path_ustar)

lemma header_matches_ustar_other:
  "tf \<noteq> DIRTYPE \<Longrightarrow> length name < 100 \<Longrightarrow> NUL \<notin> set name \<Longrightarrow>
   header_matches (ustar_header name sz tf linkname) path = (name = path)"
  by (simp add: header_matches_other typeflag_ustar header_path_ustar)

lemma flags_distinct:
  "REGTYPE \<noteq> DIRTYPE" "SYMTYPE \<noteq> DIRTYPE" "REGTYPE \<noteq> SYMTYPE" "AREGTYPE \<noteq> DIRTYPE"
  "AREGTYPE \<noteq> SYMTYPE" "DIRTYPE \<noteq> SYMTYPE" "DIRTYPE \<noteq> REGTYPE" "DIRTYPE \<noteq> AREGTYPE"
  "SYMTYPE \<noteq> REGTYPE" "SYMTYPE \<noteq> AREGTYPE"
  by (simp_all add: REGTYPE_def DIRTYPE_def SYMTYPE_def AREGTYPE_def)

lemma resolve_from_link:
  "depth < 16 \<Longrightarrow> find_header bytes current = Some (hdr, off) \<Longrightarrow> typeflag hdr = SYMTYPE \<Longrightarrow>
   resolve_from bytes depth current =
     resolve_from bytes (depth + 1) (copy_current (c_string (hdr_linkname hdr)))"
  by (subst resolve_from.simps) simp

lemma resolve_from_entry:
  "depth < 16 \<Longrightarrow> find_header bytes current = Some (hdr, off) \<Longrightarrow> typeflag hdr \<noteq> SYMTYPE \<Longrightarrow>
   resolve_from bytes depth current = Some (hdr, off, header_path hdr)"
  by (subst resolve_from.simps) simp

lemma resolve_from_bound: "\<not> depth < 16 \<Longrightarrow> resolve_from bytes depth current = None"
  by (subst resolve_from.simps) simp

lemma resolve_from_missing:
  "find_header bytes current = None \<Longrightarrow> resolve_from bytes depth current = None"
  by (subst resolve_from.simps) simp

lemma resolve_from_chain:
  "chain_target bytes n current = Some (hdr, off) \<Longrightarrow>
   resolve_from bytes depth current =
     (if depth + n < 16 then Some (hdr, off, header_path hdr) else None)"
proof (induction n arbitrary: depth current)
  case 0
  then obtain h o' where f: "find_header bytes current = Some (h, o')"
    by (auto split: option.splits)
  with 0 have "typeflag h \<noteq> SYMTYPE" "h = hdr" "o' = off"
    by (auto split: if_splits)
  with f show ?case
    by (cases "depth < 16") (simp_all add: resolve_from_entry resolve_from_bound)
next
  case (Suc n)
  then obtain h o' where f: "find_header bytes current = Some (h, o')"
    by (auto split: option.splits)
  with Suc.prems have sym: "typeflag h = SYMTYPE"
    and nxt: "chain_target bytes n (copy_current (c_string (hdr_linkname h))) = Some (hdr, off)"
    by (auto split: if_splits)
  show ?case
  proof (cases "depth < 16")
    case True
    then show ?thesis
      using Suc.IH [OF nxt, of "depth + 1"] by (simp add: resolve_from_link [OF True f sym])
  next
    case False
    then show ?thesis
      by (simp add: resolve_from_bound)
  qed
qed

lemma resolve_from_self:
  assumes "find_header bytes current = Some (lnk, off)" "typeflag lnk = SYMTYPE"
    "copy_current (c_string (hdr_linkname lnk)) = current"
  shows "resolve_from bytes depth current = None"
proof (induction "16 - depth" arbitrary: depth)
  case 0
  then show ?case
    by (simp add: resolve_from_bound)
next
  case (Suc k)
  then have d: "depth < 16" and k: "k = 16 - (depth + 1)"
    by simp_all
  show ?case
    using Suc.hyps(1) [OF k] by (simp add: resolve_from_link [OF d assms(1,2)] assms(3))
qed

section \<open>The test archive of sixteen links\<close>

lemma chain16_ok: "list_all entry_ok chain16"
  by (simp add: chain16_def entry_ok_link entry_ok_file TAR_INT_small)

lemma chain16_length: "length (tar_image chain16 end_marker) = 10752"
  by (simp add: tar_image_def chain16_def end_marker_def file_entry_def link_entry_def)

lemma find_chain16:
  "find_header (tar_image chain16 end_marker) path = locate 0 chain16 path"
  by (rule find_header_image) (simp_all add: chain16_ok end_marker_end chain16_length)

lemmas locate_simps =
  link_entry_def file_entry_def dir_entry_def header_matches_ustar_other
  header_matches_ustar_dir flags_distinct sizeof_hdr_def

lemma chain16_find:
  "find_header (tar_image chain16 end_marker) ''l01'' =
     Some (ustar_header ''l01'' ''00000000000'' SYMTYPE ''l02'', 512)"
  "find_header (tar_image chain16 end_marker) ''l02'' =
     Some (ustar_header ''l02'' ''00000000000'' SYMTYPE ''l03'', 1024)"
  "find_header (tar_image chain16 end_marker) ''l03'' =
     Some (ustar_header ''l03'' ''00000000000'' SYMTYPE ''l04'', 1536)"
  "find_header (tar_image chain16 end_marker) ''l04'' =
     Some (ustar_header ''l04'' ''00000000000'' SYMTYPE ''l05'', 2048)"
  "find_header (tar_image chain16 end_marker) ''l05'' =
     Some (ustar_header ''l05'' ''00000000000'' SYMTYPE ''l06'', 2560)"
  "find_header (tar_image chain16 end_marker) ''l06'' =
     Some (ustar_header ''l06'' ''00000000000'' SYMTYPE ''l07'', 3072)"
  "find_header (tar_image chain16 end_marker) ''l07'' =
     Some (ustar_header ''l07'' ''00000000000'' SYMTYPE ''l08'', 3584)"
  "find_header (tar_image chain16 end_marker) ''l08'' =
     Some (ustar_header ''l08'' ''00000000000'' SYMTYPE ''l09'', 4096)"
  "find_header (tar_image chain16 end_marker) ''l09'' =
     Some (ustar_header ''l09'' ''00000000000'' SYMTYPE ''l10'', 4608)"
  "find_header (tar_image chain16 end_marker) ''l10'' =
     Some (ustar_header ''l10'' ''00000000000'' SYMTYPE ''l11'', 5120)"
  "find_header (tar_image chain16 end_marker) ''l11'' =
     Some (ustar_header ''l11'' ''00000000000'' SYMTYPE ''l12'', 5632)"
  "find_header (tar_image chain16 end_marker) ''l12'' =
     Some (ustar_header ''l12'' ''00000000000'' SYMTYPE ''l13'', 6144)"
  "find_header (tar_image chain16 end_marker) ''l13'' =
     Some (ustar_header ''l13'' ''00000000000'' SYMTYPE ''l14'', 6656)"
  "find_header (tar_image chain16 end_marker) ''l14'' =
     Some (ustar_header ''l14'' ''00000000000'' SYMTYPE ''l15'', 7168)"
  "find_header (tar_image chain16 end_marker) ''l15'' =
     Some (ustar_header ''l15'' ''00000000000'' SYMTYPE ''l16'', 7680)"
  "find_header (tar_image chain16 end_marker) ''l16'' =
     Some (ustar_header ''l16'' ''00000000000'' SYMTYPE ''file'', 8192)"
  "find_header (tar_image chain16 end_marker) ''file'' =
     Some (ustar_header ''file'' ''00000000005'' REGTYPE [], 8704)"
  "find_header (tar_image chain16 end_marker) ''self'' =
     Some (ustar_header ''self'' ''00000000000'' SYMTYPE ''self'', 9728)"
  by ((subst find_chain16), (simp add: chain16_def locate_simps))+

lemma chain_target_step:
  "0 < n \<Longrightarrow> chain_target bytes n current =
     (case find_header bytes current of
        None \<Rightarrow> None
      | Some (hdr, off) \<Rightarrow>
          if typeflag hdr = SYMTYPE
          then chain_target bytes (n - 1) (copy_current (c_string (hdr_linkname hdr)))
          else None)"
  by (cases n) (auto split: option.splits)

lemma copy_current_plain:
  "length s < 255 \<Longrightarrow> s \<noteq> [] \<Longrightarrow> last s \<noteq> CHR ''/'' \<Longrightarrow> copy_current s = s"
  by (simp add: copy_current_def Let_def char_at_def last_conv_nth)

lemma chain16_target_15:
  "chain_target (tar_image chain16 end_marker) 15 ''l02'' =
     Some (ustar_header ''file'' ''00000000005'' REGTYPE [], 8704)"
  by (simp add: chain_target_step chain16_find typeflag_ustar linkname_ustar copy_current_plain
      flags_distinct)

lemma chain16_target_16:
  "chain_target (tar_image chain16 end_marker) 16 ''l01'' =
     Some (ustar_header ''file'' ''00000000005'' REGTYPE [], 8704)"
  by (simp add: chain_target_step chain16_find typeflag_ustar linkname_ustar copy_current_plain
      flags_distinct)

section \<open>Offsets and sizes\<close>

lemma read_at_full: "0 < n \<Longrightarrow> length (read_at bytes pos n) = n \<Longrightarrow> pos + n \<le> length bytes"
  by (auto simp: read_at_def min_def split: if_splits)

lemma find_header_from_within:
  "find_header_from bytes pos path = Some (hdr, off) \<Longrightarrow> off \<le> length bytes"
proof (induction bytes pos path rule: find_header_from.induct)
  case (1 bytes pos path)
  from "1.prems" have full: "length (read_at bytes pos sizeof_hdr) = sizeof_hdr"
    by (subst (asm) find_header_from.simps) (simp split: if_splits)
  let ?hdr = "read_at bytes pos sizeof_hdr"
  from "1.prems" full have ne: "\<not> is_empty_block ?hdr"
    by (subst (asm) find_header_from.simps) (simp add: Let_def split: if_splits)
  show ?case
  proof (cases "header_matches ?hdr path")
    case True
    with "1.prems" full ne have "off = pos + sizeof_hdr"
      by (subst (asm) find_header_from.simps) (simp add: Let_def)
    moreover have "pos + sizeof_hdr \<le> length bytes"
      by (rule read_at_full [OF _ full]) (simp add: sizeof_hdr_def)
    ultimately show ?thesis
      by simp
  next
    case False
    with "1.prems" full ne obtain pos' where
      sk: "lseek (pos + sizeof_hdr + jump ?hdr) = Some pos'" and
      rec: "find_header_from bytes pos' path = Some (hdr, off)"
      by (subst (asm) find_header_from.simps) (auto simp: Let_def split: option.splits)
    show ?thesis
      by (rule "1.IH" [OF full refl ne refl False sk rec])
  qed
qed

lemma find_header_within: "find_header bytes path = Some (hdr, off) \<Longrightarrow> off \<le> length bytes"
  by (auto simp: find_header_def split: option.splits dest: find_header_from_within)

lemma resolve_from_within:
  "resolve_from bytes depth current = Some (hdr, off, resolved) \<Longrightarrow> off \<le> length bytes"
proof (induction bytes depth current rule: resolve_from.induct)
  case (1 bytes depth current)
  from "1.prems" have d: "depth < 16"
    by (subst (asm) resolve_from.simps) (simp split: if_splits)
  with "1.prems" obtain h o' where f: "find_header bytes current = Some (h, o')"
    by (subst (asm) resolve_from.simps) (auto split: option.splits)
  show ?case
  proof (cases "typeflag h = SYMTYPE")
    case True
    with "1.prems" d f have
      "resolve_from bytes (depth + 1) (copy_current (c_string (hdr_linkname h))) =
        Some (hdr, off, resolved)"
      by (simp add: resolve_from_link)
    then show ?thesis
      by (rule "1.IH" [OF d f refl True])
  next
    case False
    with "1.prems" d f have "o' = off"
      by (simp add: resolve_from_entry)
    with find_header_within [OF f] show ?thesis
      by simp
  qed
qed

lemma resolve_path_within:
  "resolve_path bytes path = Some (hdr, off, resolved) \<Longrightarrow> off \<le> length bytes"
  by (simp add: resolve_path_def resolve_from_within)

lemma octal_value_bound: "octal_value acc s < (acc + 1) * 8 ^ length s"
proof (induction s arbitrary: acc)
  case Nil
  show ?case by simp
next
  case (Cons c s)
  show ?case
  proof (cases "is_octal c")
    case True
    then have "of_char c - 48 \<le> (7::nat)"
      unfolding is_octal_def by linarith
    then have "acc * 8 + (of_char c - 48) + 1 \<le> (acc + 1) * 8"
      by simp
    then have "(acc * 8 + (of_char c - 48) + 1) * 8 ^ length s \<le> (acc + 1) * 8 * 8 ^ length s"
      by (rule mult_le_mono1)
    with Cons.IH [of "acc * 8 + (of_char c - 48)"]
    have "octal_value (acc * 8 + (of_char c - 48)) s < (acc + 1) * 8 * 8 ^ length s"
      by (rule less_le_trans)
    moreover have "(acc + 1) * 8 * 8 ^ length s = (acc + 1) * 8 ^ length (c # s)"
      by (simp add: algebra_simps)
    ultimately have "octal_value (acc * 8 + (of_char c - 48)) s < (acc + 1) * 8 ^ length (c # s)"
      by (simp only:)
    with True show ?thesis
      by (simp only: octal_value.simps if_True)
  next
    case False
    have "acc < (acc + 1) * 1"
      by simp
    also have "\<dots> \<le> (acc + 1) * 8 ^ length (c # s)"
      by (rule mult_le_mono2) simp
    finally show ?thesis
      using False by simp
  qed
qed

lemma TAR_INT_bound: "TAR_INT field < 8 ^ length field"
proof -
  have "TAR_INT field < 8 ^ length (dropWhile isspace field)"
    using octal_value_bound [of 0 "dropWhile isspace field"] by (simp add: TAR_INT_def)
  also have "\<dots> \<le> 8 ^ length field"
    by (rule power_increasing) (simp_all add: length_dropWhile_le)
  finally show ?thesis .
qed

lemma size_bound: "TAR_INT (hdr_size hdr) < 2 ^ 36"
proof -
  have "TAR_INT (hdr_size hdr) < 8 ^ length (hdr_size hdr)"
    by (rule TAR_INT_bound)
  also have "\<dots> \<le> (8::nat) ^ 12"
    by (rule power_increasing) (simp_all add: hdr_size_def)
  finally show ?thesis
    by simp
qed

lemma read_file_within:
  assumes "resolve_path bytes path = Some (hdr, data_off, resolved)"
    and "typeflag hdr = REGTYPE \<or> typeflag hdr = AREGTYPE"
    and "sz = TAR_INT (hdr_size hdr)"
    and "data_off + sz \<le> length bytes"
    and "length bytes < 2 ^ 63"
    and "offset \<le> sz"
  shows "read_file bytes path offset dest cap =
           (let n = min (sz - offset) cap
            in (if offset + n = sz then 0 else int (sz - offset - n),
                read_at bytes (data_off + offset) n @ drop n dest, n))"
proof -
  define n where "n = min (sz - offset) cap"
  have "data_off + offset < 2 ^ 63"
    using assms(4,5,6) by linarith
  then have sk: "lseek (data_off + offset) = Some (data_off + offset)"
    by (rule lseek_Some)
  have to_read: "(if sz - offset > cap then cap else sz - offset) = n"
    by (simp add: n_def min_def)
  have "data_off + offset + n \<le> length bytes"
    using assms(4,6) by (simp add: n_def)
  then have got: "length (read_at bytes (data_off + offset) n) = n"
    by (simp add: read_at_def)
  have ret: "(offset + n < sz) = (offset + n \<noteq> sz)"
    using assms(6) by (auto simp: n_def)
  show ?thesis
    using assms(1,2,6)
    by (simp add: read_file_def Let_def sk to_read got ret flip: assms(3) n_def)
qed

section \<open>The test archive of a directory tree\<close>

lemma find_tree: "find_header (tar_image tree end_marker) path = locate 0 tree path"
  by (rule find_header_image) (simp_all add: tree_ok end_marker_end tree_length)

lemma tree_find:
  "find_header (tar_image tree end_marker) ''dir'' =
     Some (ustar_header ''dir/'' ''00000000000'' DIRTYPE [], 512)"
  "find_header (tar_image tree end_marker) ''dir/'' =
     Some (ustar_header ''dir/'' ''00000000000'' DIRTYPE [], 512)"
  "find_header (tar_image tree end_marker) ''dir/a'' =
     Some (ustar_header ''dir/a'' ''00000000003'' REGTYPE [], 1024)"
  "find_header (tar_image tree end_marker) ''to_dir'' =
     Some (ustar_header ''to_dir'' ''00000000000'' SYMTYPE ''dir/'', 4608)"
  "find_header (tar_image tree end_marker) ''to_a'' =
     Some (ustar_header ''to_a'' ''00000000000'' SYMTYPE ''dir/a'', 5120)"
  "find_header (tar_image tree end_marker) ''ten'' =
     Some (ustar_header ''ten'' ''00000000012'' REGTYPE [], 5632)"
  by ((subst find_tree), (simp add: tree_def locate_simps))+

lemma copy_current_strip: "length s < 255 \<Longrightarrow> copy_current (s @ ''/'') = s"
  by (simp add: copy_current_def Let_def char_at_def nth_append)

lemma tree_resolve:
  "resolve_path (tar_image tree end_marker) ''dir'' =
     Some (ustar_header ''dir/'' ''00000000000'' DIRTYPE [], 512, ''dir/'')"
  "resolve_path (tar_image tree end_marker) ''to_dir'' =
     Some (ustar_header ''dir/'' ''00000000000'' DIRTYPE [], 512, ''dir/'')"
  "resolve_path (tar_image tree end_marker) ''to_a'' =
     Some (ustar_header ''dir/a'' ''00000000003'' REGTYPE [], 1024, ''dir/a'')"
  "resolve_path (tar_image tree end_marker) ''ten'' =
     Some (ustar_header ''ten'' ''00000000012'' REGTYPE [], 5632, ''ten'')"
  using copy_current_strip [of "''dir''"]
  by (simp_all add: resolve_path_def copy_current_plain resolve_from_entry resolve_from_link
      tree_find typeflag_ustar linkname_ustar header_path_ustar flags_distinct)

lemma tree_ten_data:
  "read_at (tar_image tree end_marker) 5632 4 = ''0123''"
  "read_at (tar_image tree end_marker) 5635 4 = ''3456''"
  "read_at (tar_image tree end_marker) 5636 4 = ''4567''"
  "read_at (tar_image tree end_marker) 5640 2 = ''89''"
  by (simp_all add: read_at_def tar_image_def tree_def file_entry_def dir_entry_def link_entry_def)

section \<open>Validating an archive image\<close>

lemma check_archive_from_step:
  "read_at bytes pos sizeof_hdr = hdr \<Longrightarrow> length hdr = sizeof_hdr \<Longrightarrow> \<not> is_empty_block hdr \<Longrightarrow>
   check_archive_from bytes pos count =
     (if \<not> magic_ok hdr then - 1
      else if \<not> version_ok hdr then - 2
      else if \<not> chksum_ok hdr then - 3
      else case lseek (pos + sizeof_hdr + jump hdr) of
             None \<Rightarrow> - 3
           | Some pos' \<Rightarrow> check_archive_from bytes pos' (count + 1))"
  by (subst check_archive_from.simps) (simp add: Let_def)

lemma check_archive_from_stop:
  "(length (read_at bytes pos sizeof_hdr) = sizeof_hdr \<Longrightarrow> is_empty_block (read_at bytes pos sizeof_hdr))
   \<Longrightarrow> check_archive_from bytes pos count = count"
  by (subst check_archive_from.simps) (auto simp: Let_def)

lemma tar_image_append_rest: "tar_image es rest = tar_image es [] @ rest"
  by (simp add: tar_image_def)

lemma check_archive_from_valid:
  "list_all entry_ok es \<Longrightarrow> list_all (\<lambda>e. header_valid (fst e)) es \<Longrightarrow>
   length pre + length (tar_image es more) < 2 ^ 63 \<Longrightarrow>
   check_archive_from (pre @ tar_image es more) (length pre) count =
     check_archive_from (pre @ tar_image es more) (length pre + length (tar_image es []))
       (count + int (length es))"
proof (induction es arbitrary: pre count)
  case Nil
  show ?case
    by (simp add: tar_image_Nil)
next
  case (Cons e es)
  obtain hdr data where e: "e = (hdr, data)" by (cases e)
  from Cons.prems(1) have ok: "length hdr = sizeof_hdr" "\<not> is_empty_block hdr" "length data = jump hdr"
    and rest_ok: "list_all entry_ok es"
    by (simp_all add: e)
  from Cons.prems(2) have valid: "magic_ok hdr" "version_ok hdr" "chksum_ok hdr"
    and rest_valid: "list_all (\<lambda>e. header_valid (fst e)) es"
    by (simp_all add: e header_valid_def)
  let ?bytes = "pre @ tar_image (e # es) more"
  let ?pre = "pre @ hdr @ data"
  have bytes: "?bytes = ?pre @ tar_image es more"
    by (simp add: e tar_image_Cons)
  have rd: "read_at ?bytes (length pre) sizeof_hdr = hdr"
    by (simp add: e tar_image_Cons read_at_header ok)
  have len: "length ?pre + length (tar_image es more) < 2 ^ 63"
    using Cons.prems(3) by (simp add: e tar_image_Cons)
  have pos: "length pre + sizeof_hdr + jump hdr = length ?pre"
    by (simp add: ok)
  have sk: "lseek (length ?pre) = Some (length ?pre)"
    using len by (simp add: lseek_def)
  have ih: "check_archive_from ?bytes (length ?pre) (count + 1) =
      check_archive_from ?bytes (length ?pre + length (tar_image es [])) (count + 1 + int (length es))"
    unfolding bytes by (rule Cons.IH [OF rest_ok rest_valid len])
  have "check_archive_from ?bytes (length pre) count =
      check_archive_from ?bytes (length ?pre) (count + 1)"
    by (simp only: check_archive_from_step [OF rd ok(1,2)] valid pos sk option.case
        not_True_eq_False if_False)
  also note ih
  also have "length ?pre + length (tar_image es []) = length pre + length (tar_image (e # es) [])"
    by (simp add: e tar_image_Cons)
  also have "count + 1 + int (length es) = count + int (length (e # es))"
    by simp
  finally show ?case .
qed

lemma byte_sum_fold:
  "fold (\<lambda>b sum. (sum + of_char b) mod 2 ^ 32) xs ((acc::nat) mod 2 ^ 32) =
     (acc + sum_list (map of_char xs)) mod 2 ^ 32"
proof (induction xs arbitrary: acc)
  case Nil
  show ?case by simp
next
  case (Cons x xs)
  have "fold (\<lambda>b sum. (sum + of_char b) mod 2 ^ 32) (x # xs) (acc mod 2 ^ 32) =
      fold (\<lambda>b sum. (sum + of_char b) mod 2 ^ 32) xs ((acc + of_char x) mod 2 ^ 32)"
    by (simp add: mod_add_left_eq)
  also have "\<dots> = (acc + of_char x + sum_list (map of_char xs)) mod 2 ^ 32"
    by (rule Cons.IH)
  finally show ?case
    by (simp add: add.assoc)
qed

lemma byte_sum_sum_list: "byte_sum xs = sum_list (map of_char xs) mod 2 ^ 32"
  using byte_sum_fold [of xs 0] by (simp add: byte_sum_def)

lemma chksum_bound: "TAR_INT (hdr_chksum hdr) < 2 ^ 32"
proof -
  have "TAR_INT (hdr_chksum hdr) < 8 ^ length (hdr_chksum hdr)"
    by (rule TAR_INT_bound)
  also have "\<dots> \<le> (8::nat) ^ 8"
    by (rule power_increasing) (simp_all add: hdr_chksum_def)
  finally show ?thesis
    by simp
qed

lemma well_formed_valid:
  assumes "well_formed_header hdr"
  shows "header_valid hdr"
proof -
  from assms have m: "take 6 (drop 257 hdr) = ''ustar'' @ [NUL]"
    and v: "take 2 (drop 263 hdr) = ''00''"
    and c: "TAR_INT (hdr_chksum hdr) = sum_list (map of_char (blank_chksum hdr))"
    by (simp_all add: well_formed_header_def blank_chksum_def)
  from m have "length (take 6 (drop 257 hdr)) = 6"
    by simp
  then have l: "5 < length (drop 257 hdr)"
    by simp
  have "drop 257 hdr ! 5 = take 6 (drop 257 hdr) ! 5"
    by simp
  also have "\<dots> = NUL"
    by (simp add: m)
  finally have "char_at (hdr_magic hdr) (TMAGLEN - 1) = NUL"
    using l by (simp add: char_at_def hdr_magic_def TMAGLEN_def)
  then have "magic_ok hdr"
    by (simp add: magic_ok_def strncmp_eq_def hdr_magic_def TMAGIC_def TMAGLEN_def m)
  moreover have "version_ok hdr"
    by (simp add: version_ok_def strncmp_eq_def hdr_version_def TVERSION_def TVERSLEN_def v)
  moreover have "chksum_ok hdr"
    using chksum_bound [of hdr] by (simp add: chksum_ok_def Let_def byte_sum_sum_list flip: c)
  ultimately show ?thesis
    by (simp add: header_valid_def)
qed

lemma sum_list_of_char_le: "sum_list (map of_char xs) \<le> (255::nat) * length xs"
proof (induction xs)
  case Nil
  show ?case by simp
next
  case (Cons x xs)
  have "(of_char x :: nat) < 256"
    by (rule nat_of_char_less_256)
  then have "(of_char x :: nat) \<le> 255"
    by linarith
  then have "of_char x + sum_list (map of_char xs) \<le> (255::nat) + 255 * length xs"
    using Cons by (rule add_mono)
  then show ?case
    by simp
qed

lemma well_formed_ustar: "well_formed_header (ustar_header name sz tf linkname)"
proof -
  let ?hdr = "ustar_header name sz tf linkname"
  have "length (blank_chksum ?hdr) = 512"
    by (simp add: blank_chksum_def)
  then have "sum_list (map of_char (blank_chksum ?hdr)) \<le> (255::nat) * 512"
    using sum_list_of_char_le [of "blank_chksum ?hdr"] by simp
  then have "sum_list (map of_char (blank_chksum ?hdr)) mod 2 ^ 32 =
      (sum_list (map of_char (blank_chksum ?hdr)) :: nat)"
    by simp
  moreover have "TAR_INT (hdr_chksum ?hdr) mod 2 ^ 32 = TAR_INT (hdr_chksum ?hdr)"
    using chksum_bound [of ?hdr] by simp
  ultimately have "TAR_INT (hdr_chksum ?hdr) = sum_list (map of_char (blank_chksum ?hdr))"
    using chksum_ustar [of name sz tf linkname]
    by (simp only: chksum_ok_def Let_def byte_sum_sum_list)
  moreover have "take 6 (drop 257 ?hdr) = ''ustar'' @ [NUL]" "take 2 (drop 263 ?hdr) = ''00''"
    by (simp_all add: ustar_header_def raw_header_def)
  ultimately show ?thesis
    by (simp only: well_formed_header_def blank_chksum_def simp_thms)
qed

lemma tree_well_formed: "list_all (\<lambda>e. well_formed_header (fst e)) tree"
  by (simp add: tree_def file_entry_def dir_entry_def link_entry_def well_formed_ustar)

lemma one_file_ok:
  "list_all entry_ok [file_entry ''f'' ''00000000003'' ''abc'']"
  "list_all (\<lambda>e. header_valid (fst e)) [file_entry ''f'' ''00000000003'' ''abc'']"
  by (simp_all add: entry_ok_file TAR_INT_small) (simp add: file_entry_def header_valid_ustar)

section \<open>Listing an archive image\<close>

lemma list_from_step:
  "read_at bytes pos sizeof_hdr = hdr \<Longrightarrow> length hdr = sizeof_hdr \<Longrightarrow> \<not> is_empty_block hdr \<Longrightarrow>
   list_from bytes pos base capacity entries count =
     (let (entries', count') =
            (if is_listed base (header_path hdr) \<and> count < capacity
             then (entries[count := header_path hdr], count + 1)
             else (entries, count))
      in case lseek (pos + sizeof_hdr + jump hdr) of
           None \<Rightarrow> (entries', count')
         | Some pos' \<Rightarrow> list_from bytes pos' base capacity entries' count')"
  by (subst list_from.simps) (simp add: Let_def)

lemma list_from_stop:
  "(length (read_at bytes pos sizeof_hdr) = sizeof_hdr \<Longrightarrow> is_empty_block (read_at bytes pos sizeof_hdr))
   \<Longrightarrow> list_from bytes pos base capacity entries count = (entries, count)"
  by (subst list_from.simps) (auto simp: Let_def)

lemma store_full: "\<not> count < capacity \<Longrightarrow> store capacity entries count names = (entries, count)"
  by (induction names) simp_all

lemma list_from_image:
  "list_all entry_ok es \<Longrightarrow> end_of_archive rest \<Longrightarrow>
   length pre + length (tar_image es rest) < 2 ^ 63 \<Longrightarrow>
   list_from (pre @ tar_image es rest) (length pre) base capacity entries count =
     store capacity entries count (filter (is_listed base) (entry_paths es))"
proof (induction es arbitrary: pre entries count)
  case Nil
  show ?case
    using read_at_end [OF Nil(2), of pre]
    by (simp add: tar_image_Nil list_from_stop entry_paths_def)
next
  case (Cons e es)
  obtain hdr data where e: "e = (hdr, data)" by (cases e)
  from Cons.prems(1) have ok: "length hdr = sizeof_hdr" "\<not> is_empty_block hdr" "length data = jump hdr"
    and rest_ok: "list_all entry_ok es"
    by (simp_all add: e)
  let ?bytes = "pre @ tar_image (e # es) rest"
  let ?pre = "pre @ hdr @ data"
  let ?names = "filter (is_listed base) (entry_paths es)"
  have bytes: "?bytes = ?pre @ tar_image es rest"
    by (simp add: e tar_image_Cons)
  have rd: "read_at ?bytes (length pre) sizeof_hdr = hdr"
    by (simp add: e tar_image_Cons read_at_header ok)
  have len: "length ?pre + length (tar_image es rest) < 2 ^ 63"
    using Cons.prems(3) by (simp add: e tar_image_Cons)
  have pos: "length pre + sizeof_hdr + jump hdr = length ?pre"
    by (simp add: ok)
  have sk: "lseek (length ?pre) = Some (length ?pre)"
    using len by (simp add: lseek_def)
  have ih: "list_from ?bytes (length ?pre) base capacity entries' count' =
      store capacity entries' count' ?names" for entries' count'
    unfolding bytes by (rule Cons.IH [OF rest_ok Cons.prems(2) len])
  have step: "list_from ?bytes (length pre) base capacity entries count =
      (let (entries', count') =
             (if is_listed base (header_path hdr) \<and> count < capacity
              then (entries[count := header_path hdr], count + 1)
              else (entries, count))
       in store capacity entries' count' ?names)"
    by (simp only: list_from_step [OF rd ok(1,2)] pos sk ih option.case)
  have paths: "entry_paths (e # es) = header_path hdr # entry_paths es"
    by (simp add: e entry_paths_def)
  show ?case
  proof (cases "is_listed base (header_path hdr)")
    case True
    then show ?thesis
      by (cases "count < capacity") (simp_all add: step paths store_full)
  next
    case False
    then show ?thesis
      by (simp add: step paths)
  qed
qed

lemma store_take:
  "count \<le> capacity \<Longrightarrow> capacity \<le> length entries \<Longrightarrow>
   store capacity entries count names =
     (take count entries @ take (capacity - count) names @
        drop (count + min (capacity - count) (length names)) entries,
      count + min (capacity - count) (length names))"
proof (induction names arbitrary: entries count)
  case Nil
  show ?case by simp
next
  case (Cons name names)
  show ?case
  proof (cases "count < capacity")
    case False
    with Cons.prems have "count = capacity"
      by simp
    then show ?thesis
      by (simp add: store_full)
  next
    case True
    let ?entries = "entries[count := name]"
    have c: "count < length entries"
      using True Cons.prems(2) by simp
    have ih: "store capacity ?entries (count + 1) names =
       (take (count + 1) ?entries @ take (capacity - (count + 1)) names @
          drop (count + 1 + min (capacity - (count + 1)) (length names)) ?entries,
        count + 1 + min (capacity - (count + 1)) (length names))"
      by (rule Cons.IH) (use True Cons.prems in simp_all)
    have t: "take (count + 1) ?entries = take count entries @ [name]"
      using c by (simp add: take_Suc_conv_app_nth)
    have d: "drop (count + (1 + k)) ?entries = drop (count + (1 + k)) entries" for k
      by simp
    have k: "capacity - count = Suc (capacity - (count + 1))"
      using True by simp
    then have n: "take (capacity - count) (name # names) =
        name # take (capacity - (count + 1)) names"
      by (simp only: take_Suc_Cons)
    have m: "min (capacity - count) (length (name # names)) =
        1 + min (capacity - (count + 1)) (length names)"
      by (simp only: k length_Cons min_Suc_Suc plus_1_eq_Suc)
    show ?thesis
      using True by (simp only: store.simps if_True ih t d n m append_assoc append_Cons
          append_Nil add.assoc)
  qed
qed

lemma dropWhile_short:
  "length (dropWhile P xs) \<le> 1 \<longleftrightarrow> (\<forall>x \<in> set (butlast xs). P x)"
  by (induction xs) (auto split: if_splits)

lemma is_listed_direct:
  assumes "NUL \<notin> set base" "NUL \<notin> set name"
  shows "is_listed base name = direct_child base name"
proof -
  let ?rest = "drop (length base) name"
  let ?slash = "strchr ?rest (CHR ''/'')"
  have "NUL \<notin> set ?slash"
    using assms(2) unfolding strchr_def by (meson in_set_dropD set_dropWhileD)
  then have "char_at ?slash 1 = NUL \<longleftrightarrow> length ?slash \<le> 1"
    by (auto simp: char_at_def in_set_conv_nth)
  then have "(?slash = [] \<or> char_at ?slash 1 = NUL) \<longleftrightarrow> length ?slash \<le> 1"
    by auto
  also have "\<dots> \<longleftrightarrow> CHR ''/'' \<notin> set (butlast ?rest)"
    unfolding strchr_def dropWhile_short by auto
  finally show ?thesis
    by (auto simp: is_listed_def direct_child_def Let_def strncmp_eq_plain [OF assms(2,1)])
qed

lemma entry_paths_no_NUL: "name \<in> set (entry_paths es) \<Longrightarrow> NUL \<notin> set name"
  by (auto simp: entry_paths_def header_path_no_NUL)

lemma filter_listed:
  "NUL \<notin> set base \<Longrightarrow>
   filter (is_listed base) (entry_paths es) = filter (direct_child base) (entry_paths es)"
  by (rule filter_cong) (simp_all add: is_listed_direct entry_paths_no_NUL)

lemma resolve_from_path:
  "resolve_from bytes depth current = Some (hdr, off, resolved) \<Longrightarrow> resolved = header_path hdr"
proof (induction bytes depth current rule: resolve_from.induct)
  case (1 bytes depth current)
  from "1.prems" have d: "depth < 16"
    by (subst (asm) resolve_from.simps) (simp split: if_splits)
  with "1.prems" obtain h o' where f: "find_header bytes current = Some (h, o')"
    by (subst (asm) resolve_from.simps) (auto split: option.splits)
  show ?case
  proof (cases "typeflag h = SYMTYPE")
    case True
    with "1.prems" d f have
      "resolve_from bytes (depth + 1) (copy_current (c_string (hdr_linkname h))) =
        Some (hdr, off, resolved)"
      by (simp add: resolve_from_link)
    then show ?thesis
      by (rule "1.IH" [OF d f refl True])
  next
    case False
    with "1.prems" d f show ?thesis
      by (auto simp: resolve_from_entry)
  qed
qed

lemma list_base_no_NUL: "list_base bytes path = Base base \<Longrightarrow> NUL \<notin> set base"
  by (auto simp: list_base_def Let_def resolve_path_def header_path_no_NUL
      split: if_splits option.splits dest!: resolve_from_path)

lemma list_image:
  assumes "list_all entry_ok es" "end_of_archive rest"
    and "length (tar_image es rest) < 2 ^ 63"
    and "list_base (tar_image es rest) path = Base base"
  shows "list (tar_image es rest) path entries capacity =
    (let (entries', count) = store capacity entries 0 (filter (direct_child base) (entry_paths es))
     in Some (1, entries', count))"
proof -
  have "list_from ([] @ tar_image es rest) (length ([] :: string)) base capacity entries 0 =
      store capacity entries 0 (filter (is_listed base) (entry_paths es))"
    by (rule list_from_image) (use assms in simp_all)
  then show ?thesis
    using filter_listed [OF list_base_no_NUL [OF assms(4)], of es]
    by (simp add: list_def Let_def assms(4) lseek_def)
qed

lemma list_image_take:
  assumes "list_all entry_ok es" "end_of_archive rest"
    and "length (tar_image es rest) < 2 ^ 63"
    and "list_base (tar_image es rest) path = Base base"
    and "capacity \<le> length entries"
  shows "list (tar_image es rest) path entries capacity =
    (let children = filter (direct_child base) (entry_paths es)
     in Some (1, take capacity children @ drop (min capacity (length children)) entries,
              min capacity (length children)))"
  using assms(5) by (simp add: list_image [OF assms(1-4)] store_take Let_def)



lemma tree_paths:
  "entry_paths tree =
     [''dir/'', ''dir/a'', ''dir/b'', ''dir/c/'', ''dir/c/d'', ''dir/e/'', ''to_dir'', ''to_a'',
      ''ten'']"
  by (simp add: entry_paths_def tree_def file_entry_def dir_entry_def link_entry_def
      header_path_ustar)

lemma tree_children:
  "filter (direct_child ''dir/'') (entry_paths tree) = [''dir/a'', ''dir/b'', ''dir/c/'', ''dir/e/'']"
  by (simp add: tree_paths direct_child_def)

lemma tree_missing: "resolve_path (tar_image tree end_marker) ''nope'' = None"
proof -
  have "find_header (tar_image tree end_marker) ''nope'' = None"
    by (subst find_tree) (simp add: tree_def locate_simps)
  then show ?thesis
    by (simp add: resolve_path_def copy_current_plain resolve_from_missing)
qed

lemma tree_base:
  "list_base (tar_image tree end_marker) ''dir'' = Base ''dir/''"
  "list_base (tar_image tree end_marker) ''to_dir'' = Base ''dir/''"
  "list_base (tar_image tree end_marker) ''ten'' = NoDirectory"
  "list_base (tar_image tree end_marker) ''nope'' = NoDirectory"
  by (simp_all add: list_base_def tree_resolve tree_missing typeflag_ustar flags_distinct
      char_at_def Let_def)





lemma nameless_ok: "list_all entry_ok nameless"
  by (simp add: nameless_def entry_ok_dir entry_ok_file TAR_INT_zero)

lemma nameless_length: "length (tar_image nameless end_marker) = 2048"
  by (simp add: tar_image_def nameless_def end_marker_def file_entry_def dir_entry_def)

lemma nameless_resolve:
  "resolve_path (tar_image nameless end_marker) ''/'' =
     Some (ustar_header [] ''00000000000'' DIRTYPE [], 512, [])"
proof -
  have "find_header (tar_image nameless end_marker) [] = locate 0 nameless []"
    by (rule find_header_image) (simp_all add: nameless_ok end_marker_end nameless_length)
  then have "find_header (tar_image nameless end_marker) [] =
      Some (ustar_header [] ''00000000000'' DIRTYPE [], 512)"
    by (simp add: nameless_def locate_simps)
  moreover have "copy_current ''/'' = []"
    by (simp add: copy_current_def char_at_def)
  ultimately show ?thesis
    by (simp add: resolve_path_def resolve_from_entry typeflag_ustar header_path_ustar
        flags_distinct)
qed

lemma nameless_base: "list_base (tar_image nameless end_marker) ''/'' = Base []"
  by (simp add: list_base_def nameless_resolve typeflag_ustar char_at_def)

lemma nameless_children:
  "filter (direct_child []) (entry_paths nameless) = [''a'']"
  by (simp add: entry_paths_def nameless_def file_entry_def dir_entry_def header_path_ustar
      direct_child_def)

section \<open>The path locator on an archive image\<close>












section \<open>Defective headers\<close>

lemma bad_chksum_length [simp]: "length bad_chksum_header = 512"
  by (simp add: bad_chksum_header_def)

lemma bad_header_facts:
  "length bad_chksum_header = sizeof_hdr" "\<not> is_empty_block bad_chksum_header"
  "magic_ok bad_chksum_header" "version_ok bad_chksum_header"
  "length bad_version_header = sizeof_hdr" "\<not> is_empty_block bad_version_header"
  "magic_ok bad_version_header" "\<not> version_ok bad_version_header"
  "length bad_magic_header = sizeof_hdr" "\<not> is_empty_block bad_magic_header"
  "\<not> magic_ok bad_magic_header" "\<not> version_ok bad_magic_header"
  by (simp_all add: bad_magic_header_def bad_version_header_def sizeof_hdr_def is_empty_block_def
      magic_ok_def version_ok_def hdr_magic_def hdr_version_def strncmp_eq_def c_string_def
      char_at_def nth_append TMAGIC_def TMAGLEN_def TVERSION_def TVERSLEN_def)
    (simp_all add: bad_chksum_header_def raw_header_def nth_append)

lemma bad_sum:
  assumes "length hdr = 512" "hdr_chksum hdr = ''7777777'' @ [NUL]"
  shows "\<not> chksum_ok hdr"
proof -
  have "TAR_INT (hdr_chksum hdr) = 2097151"
    by (simp add: assms(2) TAR_INT_def isspace_def is_octal_def)
  moreover have "length (blank_chksum hdr) = 512"
    using assms(1) by (simp add: blank_chksum_def)
  then have "byte_sum (blank_chksum hdr) \<le> 255 * 512"
    using byte_sum_le [of "blank_chksum hdr"] by simp
  ultimately show ?thesis
    by (simp add: chksum_ok_def Let_def)
qed

lemma bad_header_chksum:
  "\<not> chksum_ok bad_chksum_header" "\<not> chksum_ok bad_version_header"
  "\<not> chksum_ok bad_magic_header"
  by (rule bad_sum;
      simp add: hdr_chksum_def bad_magic_header_def bad_version_header_def;
      simp add: bad_chksum_header_def raw_header_def pad_def)+

lemma one_file_length:
  "length (tar_image [file_entry ''f'' ''00000000003'' ''abc''] (bad_magic_header @ end_marker)) = 2560"
  "length (tar_image [file_entry ''f'' ''00000000003'' ''abc''] (bad_version_header @ end_marker)) = 2560"
  "length (tar_image [file_entry ''f'' ''00000000003'' ''abc''] (bad_chksum_header @ end_marker)) = 2560"
  by (simp_all add: tar_image_def file_entry_def end_marker_def bad_header_facts sizeof_hdr_def)

lemma check_archive_defective:
  assumes "list_all entry_ok es"
    and "list_all (\<lambda>e. header_valid (fst e)) es"
    and "length bad = sizeof_hdr" and "\<not> is_empty_block bad"
    and "length (tar_image es (bad @ more)) < 2 ^ 63"
    and "\<not> header_valid bad"
  shows "check_archive (tar_image es (bad @ more)) =
    (if \<not> magic_ok bad then - 1 else if \<not> version_ok bad then - 2 else - 3)"
proof -
  let ?bytes = "tar_image es (bad @ more)"
  have bytes: "?bytes = tar_image es [] @ bad @ more"
    by (rule tar_image_append_rest)
  have rd: "read_at ?bytes (length (tar_image es [])) sizeof_hdr = bad"
    unfolding bytes by (rule read_at_header [OF assms(3)])
  have "check_archive ?bytes = check_archive_from ([] @ ?bytes) (length ([] :: string)) 0"
    by (simp add: check_archive_def lseek_def)
  also have "\<dots> = check_archive_from ([] @ ?bytes)
      (length ([] :: string) + length (tar_image es [])) (0 + int (length es))"
    by (rule check_archive_from_valid) (use assms in simp_all)
  also have "\<dots> = (if \<not> magic_ok bad then - 1 else if \<not> version_ok bad then - 2 else - 3)"
    using assms(6) by (simp add: check_archive_from_step [OF rd assms(3,4)] header_valid_def)
  finally show ?thesis .
qed

section \<open>The claims\<close>

subsection \<open>C1: the bound on the links followed\<close>

text \<open>
  C1 says that \<open>resolve_path\<close> follows symbolic links up to a bound of 16 hops: a chain
  of depth 16 that ends at a valid file resolves, a chain of depth 17 fails, and a link
  to itself fails. The loop of \<open>resolve_path\<close> runs 16 times and each run looks one
  path up, the link or the final entry, so the sixteenth link is read but its target is
  never looked up. In the archive \<open>chain16\<close> the links \<open>l01\<close> to \<open>l16\<close> form a chain
  of 16 links that ends at the regular file \<open>file\<close>, and resolving \<open>l01\<close> fails.
\<close>

theorem resolve_path_chain16_counterexample:
  "chain_target (tar_image chain16 end_marker) 16 (copy_current ''l01'') =
     Some (ustar_header ''file'' ''00000000005'' REGTYPE [], 8704) \<and>
   typeflag (ustar_header ''file'' ''00000000005'' REGTYPE []) = REGTYPE \<and>
   resolve_path (tar_image chain16 end_marker) ''l01'' = None"
  using resolve_from_chain [OF chain16_target_16, of 0]
  by (simp add: resolve_path_def copy_current_plain chain16_target_16 typeflag_ustar)

text \<open>
  C1 as amended: \<open>resolve_path\<close> makes at most 16 look-ups. A chain of \<open>n\<close> symbolic
  links from the path that ends at an entry that is not a link resolves to that entry,
  with the offset of its data and its path, when \<open>n\<close> is at most 15, and fails when
  \<open>n\<close> is 16 or more; a link whose target is its own path fails.
\<close>

theorem resolve_path_hop_bound:
  "(chain_target bytes n (copy_current path) = Some (hdr, off) \<longrightarrow>
      resolve_path bytes path = (if n < 16 then Some (hdr, off, header_path hdr) else None)) \<and>
   (find_header bytes (copy_current path) = Some (lnk, loff) \<and> typeflag lnk = SYMTYPE \<and>
    copy_current (c_string (hdr_linkname lnk)) = copy_current path \<longrightarrow>
      resolve_path bytes path = None)"
  using resolve_from_chain [of bytes n "copy_current path" hdr off 0]
    resolve_from_self [of bytes "copy_current path" lnk loff 0]
  by (simp add: resolve_path_def)

theorem resolve_path_hop_bound_witness:
  "chain_target (tar_image chain16 end_marker) 15 (copy_current ''l02'') =
     Some (ustar_header ''file'' ''00000000005'' REGTYPE [], 8704) \<and>
   resolve_path (tar_image chain16 end_marker) ''l02'' =
     Some (ustar_header ''file'' ''00000000005'' REGTYPE [], 8704, ''file'') \<and>
   find_header (tar_image chain16 end_marker) (copy_current ''self'') =
     Some (ustar_header ''self'' ''00000000000'' SYMTYPE ''self'', 9728) \<and>
   typeflag (ustar_header ''self'' ''00000000000'' SYMTYPE ''self'') = SYMTYPE \<and>
   copy_current (c_string (hdr_linkname (ustar_header ''self'' ''00000000000'' SYMTYPE ''self''))) =
     copy_current ''self'' \<and>
   resolve_path (tar_image chain16 end_marker) ''self'' = None"
  using resolve_path_hop_bound [of "tar_image chain16 end_marker" 15 "''l02''"
      "ustar_header ''file'' ''00000000005'' REGTYPE []" 8704]
    resolve_path_hop_bound [of "tar_image chain16 end_marker" _ "''self''" _ _
      "ustar_header ''self'' ''00000000000'' SYMTYPE ''self''" 9728]
  by (simp add: copy_current_plain chain16_target_15 chain16_find typeflag_ustar linkname_ustar
      header_path_ustar)

subsection \<open>C2: directories with and without the trailing slash\<close>




subsection \<open>C3: the magic field is tested before the version and the checksum\<close>

text \<open>
  C3: \<open>check_archive\<close> tests the magic field of a header, then its version, then its
  checksum. In an archive where the entries before a header pass the three tests, and
  that header (a block other than the end marker) fails one of them, \<open>check_archive\<close>
  returns -1 when the magic field is wrong, whatever the version and the checksum;
  -2 when the magic field is right and the version is wrong, whatever the checksum; and
  -3 when only the checksum is wrong. So a header with a wrong magic field and a wrong
  checksum gives -1, never -3, and one with a right magic field, a wrong version and a
  wrong checksum gives -2.
\<close>

theorem check_archive_magic_first:
  assumes "list_all entry_ok es"
    and "list_all (\<lambda>e. header_valid (fst e)) es"
    and "length bad = sizeof_hdr" and "\<not> is_empty_block bad"
    and "length (tar_image es (bad @ more)) < 2 ^ 63"
  shows "(\<not> magic_ok bad \<and> \<not> chksum_ok bad \<longrightarrow>
            check_archive (tar_image es (bad @ more)) = - 1) \<and>
         (magic_ok bad \<and> \<not> version_ok bad \<and> \<not> chksum_ok bad \<longrightarrow>
            check_archive (tar_image es (bad @ more)) = - 2) \<and>
         (magic_ok bad \<and> version_ok bad \<and> \<not> chksum_ok bad \<longrightarrow>
            check_archive (tar_image es (bad @ more)) = - 3) \<and>
         (\<not> header_valid bad \<longrightarrow>
            check_archive (tar_image es (bad @ more)) =
              (if \<not> magic_ok bad then - 1 else if \<not> version_ok bad then - 2 else - 3))"
  using check_archive_defective [OF assms] by (auto simp: header_valid_def)

theorem check_archive_magic_first_witness:
  "list_all entry_ok [file_entry ''f'' ''00000000003'' ''abc''] \<and>
   list_all (\<lambda>e. header_valid (fst e)) [file_entry ''f'' ''00000000003'' ''abc''] \<and>
   length bad_magic_header = sizeof_hdr \<and> \<not> is_empty_block bad_magic_header \<and>
   \<not> magic_ok bad_magic_header \<and> \<not> version_ok bad_magic_header \<and>
   \<not> chksum_ok bad_magic_header \<and>
   check_archive (tar_image [file_entry ''f'' ''00000000003'' ''abc'']
     (bad_magic_header @ end_marker)) = - 1 \<and>
   length bad_version_header = sizeof_hdr \<and> \<not> is_empty_block bad_version_header \<and>
   magic_ok bad_version_header \<and> \<not> version_ok bad_version_header \<and>
   \<not> chksum_ok bad_version_header \<and>
   check_archive (tar_image [file_entry ''f'' ''00000000003'' ''abc'']
     (bad_version_header @ end_marker)) = - 2 \<and>
   length bad_chksum_header = sizeof_hdr \<and> \<not> is_empty_block bad_chksum_header \<and>
   magic_ok bad_chksum_header \<and> version_ok bad_chksum_header \<and>
   \<not> chksum_ok bad_chksum_header \<and>
   check_archive (tar_image [file_entry ''f'' ''00000000003'' ''abc'']
     (bad_chksum_header @ end_marker)) = - 3"
  using check_archive_magic_first [of "[file_entry ''f'' ''00000000003'' ''abc'']"
      bad_magic_header end_marker]
    check_archive_magic_first [of "[file_entry ''f'' ''00000000003'' ''abc'']"
      bad_version_header end_marker]
    check_archive_magic_first [of "[file_entry ''f'' ''00000000003'' ''abc'']"
      bad_chksum_header end_marker]
    one_file_ok
  by (simp add: bad_header_facts bad_header_chksum one_file_length header_valid_def
      sizeof_hdr_def)

subsection \<open>C4: the number of headers of a well-formed archive\<close>

text \<open>
  C4: for an archive made of entries whose headers are well formed (magic \<open>ustar\<close> and
  NUL, version \<open>00\<close>, and a checksum field equal to the sum of the bytes of the block
  with the field taken as eight spaces), followed by an all-zero block or by less than
  a block, \<open>check_archive\<close> returns the number of the entries. What follows the first
  all-zero block is not read. The archive has less than \<open>2 ^ 31\<close> entries, which the
  \<^verbatim>\<open>int\<close> counter can count, and fits the offsets of the file.
\<close>

theorem check_archive_counts_headers:
  assumes "list_all entry_ok es"
    and "list_all (\<lambda>e. well_formed_header (fst e)) es"
    and "end_of_archive rest"
    and "length (tar_image es rest) < 2 ^ 63"
    and "length es < 2 ^ 31"
  shows "check_archive (tar_image es rest) = int (length es)"
proof -
  let ?bytes = "tar_image es rest"
  have valid: "list_all (\<lambda>e. header_valid (fst e)) es"
    using assms(2) by (simp add: list_all_iff well_formed_valid)
  have bytes: "?bytes = tar_image es [] @ rest"
    by (rule tar_image_append_rest)
  have stop: "length (read_at ?bytes (length (tar_image es [])) sizeof_hdr) = sizeof_hdr \<Longrightarrow>
      is_empty_block (read_at ?bytes (length (tar_image es [])) sizeof_hdr)"
    unfolding bytes by (rule read_at_end [OF assms(3)])
  have "check_archive ?bytes = check_archive_from ([] @ ?bytes) (length ([] :: string)) 0"
    by (simp add: check_archive_def lseek_def)
  also have "\<dots> = check_archive_from ([] @ ?bytes)
      (length ([] :: string) + length (tar_image es [])) (0 + int (length es))"
    by (rule check_archive_from_valid) (use assms valid in simp_all)
  also have "\<dots> = int (length es)"
    using stop by (simp add: check_archive_from_stop)
  finally show ?thesis .
qed

theorem check_archive_counts_headers_witness:
  "list_all entry_ok tree \<and> list_all (\<lambda>e. well_formed_header (fst e)) tree \<and>
   end_of_archive end_marker \<and> length (tar_image tree end_marker) < 2 ^ 63 \<and>
   length tree < 2 ^ 31 \<and> check_archive (tar_image tree end_marker) = 9"
  using check_archive_counts_headers [of tree end_marker]
  by (simp add: tree_ok tree_well_formed end_marker_end tree_length) (simp add: tree_def)

subsection \<open>C5: partial reads\<close>

text \<open>
  C5: when the path resolves to a regular file of declared size \<open>sz\<close> whose data are in
  the archive (so that the read is complete), \<open>read_file\<close> at an offset of at most
  \<open>sz\<close> with a buffer of \<open>cap\<close> bytes writes \<open>n = min (sz - offset) cap\<close> bytes, the
  bytes of the file from the offset, sets the length to \<open>n\<close>, and returns 0 when
  \<open>offset + n = sz\<close> and the positive number \<open>sz - offset - n\<close> otherwise. For a file of
  10 bytes and a buffer of 4, the reads at 0, 4 and 8 write 4, 4 and 2 bytes and return
  6, 2 and 0.
\<close>

theorem read_file_partial_read:
  assumes "resolve_path bytes path = Some (hdr, data_off, resolved)"
    and "typeflag hdr = REGTYPE \<or> typeflag hdr = AREGTYPE"
    and "sz = TAR_INT (hdr_size hdr)"
    and "data_off + sz \<le> length bytes"
    and "length bytes < 2 ^ 63"
  shows "(offset \<le> sz \<longrightarrow>
            read_file bytes path offset dest cap =
              (let n = min (sz - offset) cap
               in (if offset + n = sz then 0 else int (sz - offset - n),
                   read_at bytes (data_off + offset) n @ drop n dest, n)) \<and>
            (offset + min (sz - offset) cap \<noteq> sz \<longrightarrow> 0 < sz - offset - min (sz - offset) cap)) \<and>
         (sz = 10 \<longrightarrow>
            read_file bytes path 0 dest 4 = (6, read_at bytes data_off 4 @ drop 4 dest, 4) \<and>
            read_file bytes path 4 dest 4 = (2, read_at bytes (data_off + 4) 4 @ drop 4 dest, 4) \<and>
            read_file bytes path 8 dest 4 = (0, read_at bytes (data_off + 8) 2 @ drop 2 dest, 2))"
proof (intro conjI impI)
  assume "offset \<le> sz"
  then show "read_file bytes path offset dest cap =
      (let n = min (sz - offset) cap
       in (if offset + n = sz then 0 else int (sz - offset - n),
           read_at bytes (data_off + offset) n @ drop n dest, n))"
    by (rule read_file_within [OF assms])
next
  assume "offset \<le> sz" "offset + min (sz - offset) cap \<noteq> sz"
  then show "0 < sz - offset - min (sz - offset) cap"
    by (simp add: min_def split: if_splits)
next
  assume ten: "sz = 10"
  then show "read_file bytes path 0 dest 4 = (6, read_at bytes data_off 4 @ drop 4 dest, 4)"
    using read_file_within [OF assms, of 0 dest 4] by simp
next
  assume ten: "sz = 10"
  then show "read_file bytes path 4 dest 4 = (2, read_at bytes (data_off + 4) 4 @ drop 4 dest, 4)"
    using read_file_within [OF assms, of 4 dest 4] by simp
next
  assume ten: "sz = 10"
  then show "read_file bytes path 8 dest 4 = (0, read_at bytes (data_off + 8) 2 @ drop 2 dest, 2)"
    using read_file_within [OF assms, of 8 dest 4] by simp
qed

theorem read_file_partial_read_witness:
  "resolve_path (tar_image tree end_marker) ''ten'' =
     Some (ustar_header ''ten'' ''00000000012'' REGTYPE [], 5632, ''ten'') \<and>
   typeflag (ustar_header ''ten'' ''00000000012'' REGTYPE []) = REGTYPE \<and>
   TAR_INT (hdr_size (ustar_header ''ten'' ''00000000012'' REGTYPE [])) = 10 \<and>
   5632 + 10 \<le> length (tar_image tree end_marker) \<and>
   length (tar_image tree end_marker) < 2 ^ 63 \<and>
   read_file (tar_image tree end_marker) ''ten'' 0 ''....'' 4 = (6, ''0123'', 4) \<and>
   read_file (tar_image tree end_marker) ''ten'' 4 ''....'' 4 = (2, ''4567'', 4) \<and>
   read_file (tar_image tree end_marker) ''ten'' 8 ''....'' 4 = (0, ''89..'', 2) \<and>
   read_file (tar_image tree end_marker) ''ten'' 3 ''....'' 4 = (3, ''3456'', 4)"
  using read_file_partial_read [of "tar_image tree end_marker" "''ten''"
      "ustar_header ''ten'' ''00000000012'' REGTYPE []" 5632 "''ten''" 10 3 "''....''" 4]
  by (simp add: tree_resolve typeflag_ustar size_ustar TAR_INT_small tree_length tree_ten_data)

subsection \<open>C6: the range of the offset\<close>

text \<open>
  C6: when the path resolves to a regular file of declared size \<open>sz\<close>, \<open>read_file\<close> at
  an offset greater than \<open>sz\<close> returns -2 and leaves the buffer and the length as they
  were; at the offset \<open>sz\<close> it returns 0, writes nothing and sets the length to 0.
\<close>

theorem read_file_offset_range:
  assumes "resolve_path bytes path = Some (hdr, data_off, resolved)"
    and "typeflag hdr = REGTYPE \<or> typeflag hdr = AREGTYPE"
    and "length bytes < 2 ^ 62"
  shows "(TAR_INT (hdr_size hdr) < offset \<longrightarrow>
            read_file bytes path offset dest len = (- 2, dest, len)) \<and>
         (offset = TAR_INT (hdr_size hdr) \<longrightarrow>
            read_file bytes path offset dest len = (0, dest, 0))"
proof -
  have "data_off + TAR_INT (hdr_size hdr) < 2 ^ 62 + 2 ^ 36"
    using resolve_path_within [OF assms(1)] size_bound [of hdr] assms(3) by linarith
  then have "data_off + TAR_INT (hdr_size hdr) < 2 ^ 63"
    by simp
  then have "lseek (data_off + TAR_INT (hdr_size hdr)) = Some (data_off + TAR_INT (hdr_size hdr))"
    by (rule lseek_Some)
  then show ?thesis
    using assms(1,2) by (auto simp: read_file_def Let_def read_at_def)
qed

theorem read_file_offset_range_witness:
  "resolve_path (tar_image tree end_marker) ''ten'' =
     Some (ustar_header ''ten'' ''00000000012'' REGTYPE [], 5632, ''ten'') \<and>
   typeflag (ustar_header ''ten'' ''00000000012'' REGTYPE []) = REGTYPE \<and>
   length (tar_image tree end_marker) < 2 ^ 62 \<and>
   TAR_INT (hdr_size (ustar_header ''ten'' ''00000000012'' REGTYPE [])) = 10 \<and>
   read_file (tar_image tree end_marker) ''ten'' 11 ''....'' 4 = (- 2, ''....'', 4) \<and>
   read_file (tar_image tree end_marker) ''ten'' 10 ''....'' 4 = (0, ''....'', 0)"
  using read_file_offset_range [of "tar_image tree end_marker" "''ten''"
      "ustar_header ''ten'' ''00000000012'' REGTYPE []" 5632 "''ten''" 11 "''....''" 4]
    read_file_offset_range [of "tar_image tree end_marker" "''ten''"
      "ustar_header ''ten'' ''00000000012'' REGTYPE []" 5632 "''ten''" 10 "''....''" 4]
  by (simp add: tree_resolve typeflag_ustar size_ustar TAR_INT_small tree_length)

subsection \<open>C7: only direct children are listed\<close>



subsection \<open>C8: the capacity of the array\<close>



subsection \<open>C9: the path that is listed\<close>

text \<open>
  C9 says that for a path that is not empty \<open>list\<close> resolves the path with
  \<open>resolve_path\<close>, returns 0 when the resolution fails or its result is not a
  directory, and filters with the resolved path made to end with a slash. Line 296
  adds the slash only to a path that is not empty: in the archive \<open>nameless\<close> the path
  \<open>/\<close> resolves to a directory entry whose path is empty, the prefix is the empty
  string, and the file \<open>a\<close> at the root is listed.
\<close>

theorem list_empty_prefix_counterexample:
  "''/'' \<noteq> [] \<and>
   resolve_path (tar_image nameless end_marker) ''/'' =
     Some (ustar_header [] ''00000000000'' DIRTYPE [], 512, []) \<and>
   typeflag (ustar_header [] ''00000000000'' DIRTYPE []) = DIRTYPE \<and>
   list_base (tar_image nameless end_marker) ''/'' = Base [] \<and>
   list (tar_image nameless end_marker) ''/'' [[], []] 2 = Some (1, [''a'', []], 1)"
  using list_image_take [of nameless end_marker "''/''" "[]" 2 "[[], []]"]
  by (simp add: nameless_ok end_marker_end nameless_length nameless_base nameless_children
      nameless_resolve typeflag_ustar)

text \<open>
  C9 as amended: for a path that is not empty, \<open>list\<close> returns 0 with a count of 0 and
  leaves the array when \<open>resolve_path\<close> fails or gives an entry that is not a
  directory; when it gives a directory, the prefix of the scan is the resolved path
  as it is when that path is empty or ends with a slash, and the resolved path followed
  by a slash when it has less than 255 characters.
\<close>

theorem list_resolves_path:
  assumes "path \<noteq> []" "NUL \<notin> set path"
  shows "(resolve_path bytes path = None \<longrightarrow>
            list bytes path entries capacity = Some (0, entries, 0)) \<and>
         (resolve_path bytes path = Some (hdr, off, resolved) \<and> typeflag hdr \<noteq> DIRTYPE \<longrightarrow>
            list bytes path entries capacity = Some (0, entries, 0)) \<and>
         (resolve_path bytes path = Some (hdr, off, resolved) \<and> typeflag hdr = DIRTYPE \<and>
          (resolved = [] \<or> last resolved = CHR ''/'' \<or> length resolved < 255) \<longrightarrow>
            list_base bytes path =
              Base (if resolved = [] \<or> last resolved = CHR ''/'' then resolved
                    else resolved @ ''/'') \<and>
            list bytes path entries capacity =
              (let (entries', count) =
                 list_from bytes 0
                   (if resolved = [] \<or> last resolved = CHR ''/'' then resolved
                    else resolved @ ''/'')
                   capacity entries 0
               in Some (1, entries', count)))"
proof -
  from assms have p: "char_at path 0 \<noteq> NUL"
    by (cases path) (auto simp: char_at_def)
  have l: "resolved \<noteq> [] \<Longrightarrow> char_at resolved (length resolved - 1) = last resolved"
    by (simp add: char_at_def last_conv_nth)
  show ?thesis
    using p l by (auto simp: list_def list_base_def Let_def lseek_def)
qed

theorem list_resolves_path_witness:
  "''to_dir'' \<noteq> [] \<and> NUL \<notin> set ''to_dir'' \<and> NUL \<notin> set ''ten'' \<and> NUL \<notin> set ''nope'' \<and>
   resolve_path (tar_image tree end_marker) ''nope'' = None \<and>
   list (tar_image tree end_marker) ''nope'' [[], []] 2 = Some (0, [[], []], 0) \<and>
   resolve_path (tar_image tree end_marker) ''ten'' =
     Some (ustar_header ''ten'' ''00000000012'' REGTYPE [], 5632, ''ten'') \<and>
   typeflag (ustar_header ''ten'' ''00000000012'' REGTYPE []) \<noteq> DIRTYPE \<and>
   list (tar_image tree end_marker) ''ten'' [[], []] 2 = Some (0, [[], []], 0) \<and>
   resolve_path (tar_image tree end_marker) ''to_dir'' =
     Some (ustar_header ''dir/'' ''00000000000'' DIRTYPE [], 512, ''dir/'') \<and>
   typeflag (ustar_header ''dir/'' ''00000000000'' DIRTYPE []) = DIRTYPE \<and>
   last ''dir/'' = CHR ''/'' \<and>
   list_base (tar_image tree end_marker) ''to_dir'' = Base ''dir/'' \<and>
   list (tar_image tree end_marker) ''to_dir'' [[], [], [], [], []] 5 =
     Some (1, [''dir/a'', ''dir/b'', ''dir/c/'', ''dir/e/'', []], 4)"
proof -
  have listed: "list (tar_image tree end_marker) ''to_dir'' [[], [], [], [], []] 5 =
      Some (1, [''dir/a'', ''dir/b'', ''dir/c/'', ''dir/e/'', []], 4)"
    using list_image_take [of tree end_marker "''to_dir''" "''dir/''" 5 "[[], [], [], [], []]"]
    by (simp add: tree_ok end_marker_end tree_length tree_base tree_children)
  show ?thesis
    using list_resolves_path [of "''nope''" "tar_image tree end_marker" "[[], []]" 2]
      list_resolves_path [of "''ten''" "tar_image tree end_marker" "[[], []]" 2
        "ustar_header ''ten'' ''00000000012'' REGTYPE []" 5632 "''ten''"]
      list_resolves_path [of "''to_dir''" "tar_image tree end_marker" "[[], [], [], [], []]" 5
        "ustar_header ''dir/'' ''00000000000'' DIRTYPE []" 512 "''dir/''"]
    by (simp add: listed tree_base tree_resolve tree_missing typeflag_ustar flags_distinct)
qed

subsection \<open>C10: the predicates do not follow links\<close>

text \<open>
  C10: \<open>exists\<close>, \<open>is_dir\<close>, \<open>is_file\<close> and \<open>is_symlink\<close> look the path up once with
  \<open>find_header\<close> and test the type flag of the entry found. When that entry is a
  symbolic link, whatever its target, \<open>is_dir\<close> and \<open>is_file\<close> return 0 and
  \<open>is_symlink\<close> and \<open>exists\<close> return 1.
\<close>

theorem predicates_do_not_follow_links:
  "find_header bytes path = Some (hdr, off) \<Longrightarrow> typeflag hdr = SYMTYPE \<Longrightarrow>
   is_dir bytes path = 0 \<and> is_file bytes path = 0 \<and> is_symlink bytes path = 1 \<and>
   exists bytes path = 1"
  by (simp add: is_dir_def is_file_def is_symlink_def exists_def c_bool_def flags_distinct)

theorem predicates_do_not_follow_links_witness:
  "find_header (tar_image tree end_marker) ''to_dir'' =
     Some (ustar_header ''to_dir'' ''00000000000'' SYMTYPE ''dir/'', 4608) \<and>
   typeflag (ustar_header ''to_dir'' ''00000000000'' SYMTYPE ''dir/'') = SYMTYPE \<and>
   is_dir (tar_image tree end_marker) ''dir/'' = 1 \<and>
   is_dir (tar_image tree end_marker) ''to_dir'' = 0 \<and>
   is_file (tar_image tree end_marker) ''to_dir'' = 0 \<and>
   is_symlink (tar_image tree end_marker) ''to_dir'' = 1 \<and>
   exists (tar_image tree end_marker) ''to_dir'' = 1 \<and>
   is_file (tar_image tree end_marker) ''dir/a'' = 1 \<and>
   is_file (tar_image tree end_marker) ''to_a'' = 0 \<and>
   is_symlink (tar_image tree end_marker) ''to_a'' = 1"
  using predicates_do_not_follow_links [of "tar_image tree end_marker" "''to_dir''"
      "ustar_header ''to_dir'' ''00000000000'' SYMTYPE ''dir/''" 4608]
    predicates_do_not_follow_links [of "tar_image tree end_marker" "''to_a''"
      "ustar_header ''to_a'' ''00000000000'' SYMTYPE ''dir/a''" 5120]
  by (simp add: tree_find typeflag_ustar is_dir_def is_file_def c_bool_def flags_distinct)

end
